theory Spec2Isabelle
  imports Main "HOL-Library.Sublist"
begin

section \<open>JavaScript strings\<close>

text \<open>
  A JavaScript string is modelled as a \<open>string\<close> (a list of characters); \<open>length\<close> is
  its \<open>.length\<close>. Indices and the numeric parameters of the source are \<open>int\<close>, because
  the source computes with negative numbers (\<open>slice(-k)\<close>, the sentinel \<open>-1\<close>).

  The model is of ASCII strings, which is what gene sequences, primer sequences and
  primer names are: \<open>toUpperCase\<close> maps the letters \<open>a\<close> to \<open>z\<close> to \<open>A\<close> to \<open>Z\<close> and
  leaves every other character as it is, so it keeps the length of a string.
\<close>

text \<open>\<open>String.prototype.toUpperCase\<close>, on ASCII strings.\<close>

definition upperChar :: "char \<Rightarrow> char" where
  "upperChar c =
     (let k = (of_char c :: nat) in if 97 \<le> k \<and> k \<le> 122 then char_of (k - 32) else c)"

definition toUpperCase :: "string \<Rightarrow> string" where
  "toUpperCase s = map upperChar s"

text \<open>
  \<open>s.slice(a, b)\<close>: a negative index counts from the end, and both indices are clamped
  to \<open>[0, length]\<close>; the result is empty when the clamped start is not before the clamped
  end. \<open>s.slice(a)\<close> runs to the end of the string.
\<close>

definition sliceIndex :: "int \<Rightarrow> int \<Rightarrow> int" where
  "sliceIndex n a = (if a < 0 then max (n + a) 0 else min a n)"

definition slice2 :: "'a list \<Rightarrow> int \<Rightarrow> int \<Rightarrow> 'a list" where
  "slice2 s a b =
     (let n = int (length s); from = sliceIndex n a; to = sliceIndex n b
      in take (nat (to - from)) (drop (nat from) s))"

definition slice1 :: "'a list \<Rightarrow> int \<Rightarrow> 'a list" where
  "slice1 s a = slice2 s a (int (length s))"

text \<open>
  \<open>hay.indexOf(needle)\<close>: the least index at which \<open>needle\<close> starts in \<open>hay\<close>, or \<open>-1\<close>.
  The empty needle is found at index 0.
\<close>

fun indexOfFrom :: "'a list \<Rightarrow> 'a list \<Rightarrow> nat \<Rightarrow> int" where
  "indexOfFrom [] needle i = (if needle = [] then int i else -1)"
| "indexOfFrom (h # hs) needle i =
     (if prefix needle (h # hs) then int i else indexOfFrom hs needle (Suc i))"

definition indexOf :: "'a list \<Rightarrow> 'a list \<Rightarrow> int" where
  "indexOf hay needle = indexOfFrom hay needle 0"

section \<open>Reverse complement\<close>

text \<open>
  \<open>revcomp\<close> of \<open>hairpin.js\<close>: split into characters, reverse, map each base through
  the table \<open>{A: T, T: A, C: G, G: C}\<close> (a character that is not a key stays as it is), join.
\<close>

definition complement :: "char \<Rightarrow> char" where
  "complement base =
     (if base = CHR ''A'' then CHR ''T''
      else if base = CHR ''T'' then CHR ''A''
      else if base = CHR ''C'' then CHR ''G''
      else if base = CHR ''G'' then CHR ''C''
      else base)"

definition revcomp :: "string \<Rightarrow> string" where
  "revcomp s = map complement (rev s)"

section \<open>Hairpin detection\<close>

text \<open>
  The object returned by \<open>checkHairpin3Prime\<close> when a hairpin is found; \<open>null\<close> is
  \<open>None\<close>. The property \<open>type\<close> is written \<open>hairpinType\<close>.
\<close>

record hairpin3_result =
  hairpinType :: string
  stemSeq :: string
  stemRC :: string
  stemLength :: int
  loopLength :: int
  pos3PrimeStart :: int
  pos3PrimeEnd :: int
  posUpstreamStart :: int
  posUpstreamEnd :: int

text \<open>
  The inner loop of \<open>checkHairpin3Prime\<close>, \<open>for (loop = 3; loop <= maxLoop; loop++)\<close>:
  \<open>None\<close> when the loop ends (by its condition or by \<open>break\<close>) without a match, the
  returned object otherwise.
\<close>

function loop3Prime ::
  "int \<Rightarrow> int \<Rightarrow> int \<Rightarrow> string \<Rightarrow> string \<Rightarrow> string \<Rightarrow> int \<Rightarrow> int \<Rightarrow> hairpin3_result option"
where
  "loop3Prime n scanStart stemLen stem rcStem searchRegion maxLoop loop =
     (if loop \<le> maxLoop then
        (if int (length searchRegion) - stemLen - loop < 0 then None
         else if slice2 searchRegion (int (length searchRegion) - stemLen - loop)
                   (int (length searchRegion) - stemLen - loop + stemLen) = rcStem
         then Some \<lparr>hairpinType = ''3prime'', stemSeq = stem, stemRC = rcStem,
                    stemLength = stemLen, loopLength = loop,
                    pos3PrimeStart = n - stemLen, pos3PrimeEnd = n,
                    posUpstreamStart = scanStart + (int (length searchRegion) - stemLen - loop),
                    posUpstreamEnd = scanStart + (int (length searchRegion) - stemLen - loop)
                                     + stemLen\<rparr>
         else loop3Prime n scanStart stemLen stem rcStem searchRegion maxLoop (loop + 1))
      else None)"
  by pat_completeness auto
termination
  by (relation "measure (\<lambda>(n, scanStart, stemLen, stem, rcStem, searchRegion, maxLoop, loop).
                  nat (maxLoop + 1 - loop))") auto

declare loop3Prime.simps [simp del]

text \<open>
  The outer loop, \<open>for (stemLen = maxStem; stemLen >= minStem; stemLen--)\<close>: the first
  stem length, from the longest down, whose inner loop returns.
\<close>

function stem3Prime :: "int \<Rightarrow> int \<Rightarrow> string \<Rightarrow> int \<Rightarrow> int \<Rightarrow> int \<Rightarrow> hairpin3_result option"
where
  "stem3Prime n scanStart scanRegion minStem maxLoop stemLen =
     (if stemLen \<ge> minStem then
        (case loop3Prime n scanStart stemLen (slice1 scanRegion (- stemLen))
                (revcomp (slice1 scanRegion (- stemLen)))
                (slice2 scanRegion 0 (- stemLen)) maxLoop 3 of
           Some r \<Rightarrow> Some r
         | None \<Rightarrow> stem3Prime n scanStart scanRegion minStem maxLoop (stemLen - 1))
      else None)"
  by pat_completeness auto
termination
  by (relation "measure (\<lambda>(n, scanStart, scanRegion, minStem, maxLoop, stemLen).
                  nat (stemLen + 1 - minStem))") auto

declare stem3Prime.simps [simp del]

definition checkHairpin3Prime :: "string \<Rightarrow> int \<Rightarrow> int \<Rightarrow> int \<Rightarrow> hairpin3_result option" where
  "checkHairpin3Prime primer0 maxStem minStem maxLoop =
     (let primer = toUpperCase primer0;
          n = int (length primer);
          scanRegion = (if n > 15 then slice1 primer (- 15) else primer);
          scanStart = (if n > 15 then n - 15 else 0)
      in stem3Prime n scanStart scanRegion minStem maxLoop maxStem)"

text \<open>
  The object returned by \<open>checkHairpin5Prime\<close> when a hairpin is found. The properties
  that it shares with the 3' object carry the suffix \<open>5\<close>.
\<close>

record hairpin5_result =
  hairpinType5 :: string
  stemSeq5 :: string
  stemRC5 :: string
  stemLength5 :: int
  loopLength5 :: int
  pos5PrimeStart :: int
  pos5PrimeEnd :: int
  posDownstreamStart :: int
  posDownstreamEnd :: int

text \<open>
  The two loops of \<open>checkHairpin5Prime\<close>, anchored at the left edge of the scan region:
  the inner loop breaks when the candidate window would end after the region.
\<close>

function loop5Prime ::
  "int \<Rightarrow> string \<Rightarrow> string \<Rightarrow> string \<Rightarrow> int \<Rightarrow> int \<Rightarrow> hairpin5_result option"
where
  "loop5Prime stemLen stem rcStem scanRegion maxLoop loop =
     (if loop \<le> maxLoop then
        (if stemLen + loop + stemLen > int (length scanRegion) then None
         else if slice2 scanRegion (stemLen + loop) (stemLen + loop + stemLen) = rcStem
         then Some \<lparr>hairpinType5 = ''5prime'', stemSeq5 = stem, stemRC5 = rcStem,
                    stemLength5 = stemLen, loopLength5 = loop,
                    pos5PrimeStart = 0, pos5PrimeEnd = stemLen,
                    posDownstreamStart = stemLen + loop,
                    posDownstreamEnd = stemLen + loop + stemLen\<rparr>
         else loop5Prime stemLen stem rcStem scanRegion maxLoop (loop + 1))
      else None)"
  by pat_completeness auto
termination
  by (relation "measure (\<lambda>(stemLen, stem, rcStem, scanRegion, maxLoop, loop).
                  nat (maxLoop + 1 - loop))") auto

declare loop5Prime.simps [simp del]

function stem5Prime :: "string \<Rightarrow> int \<Rightarrow> int \<Rightarrow> int \<Rightarrow> hairpin5_result option"
where
  "stem5Prime scanRegion minStem maxLoop stemLen =
     (if stemLen \<ge> minStem then
        (case loop5Prime stemLen (slice2 scanRegion 0 stemLen)
                (revcomp (slice2 scanRegion 0 stemLen)) scanRegion maxLoop 3 of
           Some r \<Rightarrow> Some r
         | None \<Rightarrow> stem5Prime scanRegion minStem maxLoop (stemLen - 1))
      else None)"
  by pat_completeness auto
termination
  by (relation "measure (\<lambda>(scanRegion, minStem, maxLoop, stemLen).
                  nat (stemLen + 1 - minStem))") auto

declare stem5Prime.simps [simp del]

definition checkHairpin5Prime :: "string \<Rightarrow> int \<Rightarrow> int \<Rightarrow> int \<Rightarrow> hairpin5_result option" where
  "checkHairpin5Prime primer0 maxStem minStem maxLoop =
     (let primer = toUpperCase primer0;
          n = int (length primer);
          scanRegion = (if n > 15 then slice2 primer 0 15 else primer)
      in stem5Prime scanRegion minStem maxLoop maxStem)"

text \<open>
  Adding a window offset \<open>d\<close> to the four positions of a 3' result: the translation
  between the coordinates of a scan window and those of the full sequence.
\<close>

definition offsetBy :: "int \<Rightarrow> hairpin3_result \<Rightarrow> hairpin3_result" where
  "offsetBy d r = r\<lparr>pos3PrimeStart := pos3PrimeStart r + d, pos3PrimeEnd := pos3PrimeEnd r + d,
                     posUpstreamStart := posUpstreamStart r + d,
                     posUpstreamEnd := posUpstreamEnd r + d\<rparr>"

section \<open>Splitting FIP/BIP\<close>

text \<open>
  The object returned by \<open>splitInnerPrimer\<close> with \<open>found: true\<close>; the object
  \<open>{ found: false }\<close> is \<open>None\<close>.
\<close>

record split_result =
  left :: string
  right :: string
  leftType :: string
  rightType :: string
  leftStart :: int
  leftEnd :: int
  rightStart :: int
  rightEnd :: int

definition found :: "split_result option \<Rightarrow> bool" where
  "found s = (s \<noteq> None)"

text \<open>
  The body of the loop of \<open>splitInnerPrimer\<close> for one \<open>rightLen\<close>: \<open>Some\<close> of the
  returned object when one of the two \<open>return\<close> statements is reached, \<open>None\<close> when the
  body falls through to the next iteration.
\<close>

definition trySplit :: "string \<Rightarrow> string \<Rightarrow> bool \<Rightarrow> int \<Rightarrow> split_result option" where
  "trySplit seq gene isFIP rightLen =
     (let leftPart = slice2 seq 0 (int (length seq) - rightLen);
          rightPart = slice1 seq (int (length seq) - rightLen);
          rightIdx = indexOf gene rightPart;
          leftIdx = indexOf gene (revcomp leftPart);
          leftIdx2 = indexOf gene leftPart;
          rightIdx2 = indexOf gene (revcomp rightPart)
      in if rightIdx \<noteq> - 1 \<and> leftIdx \<noteq> - 1 then
           Some \<lparr>left = leftPart, right = rightPart,
                 leftType = (if isFIP then ''F1c'' else ''B1c''),
                 rightType = (if isFIP then ''F2'' else ''B2''),
                 leftStart = leftIdx, leftEnd = leftIdx + int (length leftPart),
                 rightStart = rightIdx, rightEnd = rightIdx + int (length rightPart)\<rparr>
         else if leftIdx2 \<noteq> - 1 \<and> rightIdx2 \<noteq> - 1 then
           Some \<lparr>left = rightPart, right = leftPart,
                 leftType = (if isFIP then ''F1c'' else ''B1c''),
                 rightType = (if isFIP then ''F2'' else ''B2''),
                 leftStart = rightIdx2, leftEnd = rightIdx2 + int (length rightPart),
                 rightStart = leftIdx2, rightEnd = leftIdx2 + int (length leftPart)\<rparr>
         else None)"

text \<open>
  \<open>for (rightLen = 15; rightLen <= 35 && rightLen < seq.length - 10; rightLen++)\<close>.
\<close>

function splitLoop :: "string \<Rightarrow> string \<Rightarrow> bool \<Rightarrow> int \<Rightarrow> split_result option" where
  "splitLoop seq gene isFIP rightLen =
     (if rightLen \<le> 35 \<and> rightLen < int (length seq) - 10 then
        (case trySplit seq gene isFIP rightLen of
           Some r \<Rightarrow> Some r
         | None \<Rightarrow> splitLoop seq gene isFIP (rightLen + 1))
      else None)"
  by pat_completeness auto
termination
  by (relation "measure (\<lambda>(seq, gene, isFIP, rightLen). nat (36 - rightLen))") auto

declare splitLoop.simps [simp del]

definition splitInnerPrimer :: "string \<Rightarrow> string \<Rightarrow> bool \<Rightarrow> split_result option" where
  "splitInnerPrimer innerPrimer gene isFIP = splitLoop (toUpperCase innerPrimer) gene isFIP 15"

section \<open>Cross-dimer detection\<close>

record dimer =
  primer1 :: string
  primer2 :: string
  primer1_3prime :: string
  primer1_3prime_rc :: string
  bindingPos :: int
  matchLength :: int
  direction :: string

text \<open>
  One of the two loops of \<open>checkDimer\<close>,
  \<open>for (matchLen = 8; matchLen >= minMatch; matchLen--)\<close>, for the 3' end of \<open>seqA\<close>
  binding to \<open>seqB\<close>. The two loops of the source differ only in which primer plays
  which part and in the \<open>direction\<close> label. The loop pushes one record onto \<open>dimers\<close>
  and breaks, or ends without a push.
\<close>

function dimerLoop ::
  "string \<Rightarrow> string \<Rightarrow> string \<Rightarrow> string \<Rightarrow> string \<Rightarrow> int \<Rightarrow> dimer list \<Rightarrow> int \<Rightarrow> dimer list"
where
  "dimerLoop nameA seqA nameB seqB dir minMatch dimers matchLen =
     (if matchLen \<ge> minMatch then
        (if int (length seqA) \<ge> matchLen
            \<and> indexOf seqB (revcomp (slice1 seqA (- matchLen))) \<noteq> - 1
         then dimers @ [\<lparr>primer1 = nameA, primer2 = nameB,
                          primer1_3prime = slice1 seqA (- matchLen),
                          primer1_3prime_rc = revcomp (slice1 seqA (- matchLen)),
                          bindingPos = indexOf seqB (revcomp (slice1 seqA (- matchLen))),
                          matchLength = matchLen, direction = dir\<rparr>]
         else dimerLoop nameA seqA nameB seqB dir minMatch dimers (matchLen - 1))
      else dimers)"
  by pat_completeness auto
termination
  by (relation "measure (\<lambda>(nameA, seqA, nameB, seqB, dir, minMatch, dimers, matchLen).
                  nat (matchLen + 1 - minMatch))") auto

declare dimerLoop.simps [simp del]

definition checkDimer :: "string \<Rightarrow> string \<Rightarrow> string \<Rightarrow> string \<Rightarrow> int \<Rightarrow> dimer list" where
  "checkDimer p1Name p1Seq0 p2Name p2Seq0 minMatch =
     (let p1Seq = toUpperCase p1Seq0;
          p2Seq = toUpperCase p2Seq0;
          dimers = [];
          dimers = dimerLoop p1Name p1Seq p2Name p2Seq ''p1_to_p2'' minMatch dimers 8;
          dimers = dimerLoop p2Name p2Seq p1Name p1Seq ''p2_to_p1'' minMatch dimers 8
      in dimers)"

section \<open>Primers and the analysis pipeline\<close>

text \<open>
  A property of a JavaScript object is absent (\<open>Undefined\<close>), \<open>null\<close>, or holds a value.
\<close>

datatype 'a jsval = Undefined | Null | Val 'a

text \<open>
  The primer objects that \<open>attachPrimerPositions\<close> mutates. \<open>name\<close> and \<open>seq\<close> are
  always present; every other property is one the function may assign. The property
  \<open>end\<close> is written \<open>endPos\<close>, and the properties copied from a split carry the
  prefix \<open>p\<close>.
\<close>

record primer =
  name :: string
  seq :: string
  start :: "int jsval"
  endPos :: "int jsval"
  orientation :: "string jsval"
  isInner :: "bool jsval"
  pLeft :: "string jsval"
  pRight :: "string jsval"
  pLeftType :: "string jsval"
  pRightType :: "string jsval"
  pLeftStart :: "int jsval"
  pLeftEnd :: "int jsval"
  pRightStart :: "int jsval"
  pRightEnd :: "int jsval"
  hairpin3 :: "hairpin3_result jsval"
  hairpin5 :: "hairpin5_result jsval"
  hasHairpin :: "bool jsval"

text \<open>A function result that is an object or \<open>null\<close>.\<close>

definition orNull :: "'a option \<Rightarrow> 'a jsval" where
  "orNull x = (case x of None \<Rightarrow> Null | Some v \<Rightarrow> Val v)"

text \<open>
  The three statements that end both hairpin-scanning paths of the loop body:
  \<open>p.hairpin3 = hp3; p.hairpin5 = hp5; p.hasHairpin = !!(hp3 || hp5)\<close>.
\<close>

definition scanHairpins :: "primer \<Rightarrow> primer" where
  "scanHairpins p =
     (let hp3 = checkHairpin3Prime (seq p) 6 2 12;
          hp5 = checkHairpin5Prime (seq p) 6 2 12
      in p\<lparr>hairpin3 := orNull hp3, hairpin5 := orNull hp5,
            hasHairpin := Val (hp3 \<noteq> None \<or> hp5 \<noteq> None)\<rparr>)"

text \<open>
  The body of \<open>for (let p of primers)\<close> in \<open>attachPrimerPositions\<close>; \<open>gene\<close> is
  already uppercased.
\<close>

definition attachPrimer :: "string \<Rightarrow> primer \<Rightarrow> primer" where
  "attachPrimer gene p =
     (let isFIP = (toUpperCase (name p) = ''FIP'');
          isBIP = (toUpperCase (name p) = ''BIP'')
      in if isFIP \<or> isBIP then
           (case splitInnerPrimer (seq p) gene isFIP of
              Some split \<Rightarrow>
                scanHairpins (p\<lparr>isInner := Val True,
                                 pLeft := Val (left split), pRight := Val (right split),
                                 pLeftType := Val (leftType split),
                                 pRightType := Val (rightType split),
                                 pLeftStart := Val (leftStart split),
                                 pLeftEnd := Val (leftEnd split),
                                 pRightStart := Val (rightStart split),
                                 pRightEnd := Val (rightEnd split)\<rparr>)
            | None \<Rightarrow>
                p\<lparr>isInner := Val True, orientation := Val ''not split'',
                   start := Val (- 1), endPos := Val (- 1)\<rparr>)
         else
           (let forwardIdx = indexOf gene (seq p);
                rcSeq = revcomp (seq p);
                reverseIdx = indexOf gene rcSeq
            in scanHairpins
                 (if forwardIdx \<noteq> - 1 then
                    p\<lparr>start := Val forwardIdx,
                       endPos := Val (forwardIdx + int (length (seq p))),
                       orientation := Val ''forward''\<rparr>
                  else if reverseIdx \<noteq> - 1 then
                    p\<lparr>start := Val reverseIdx,
                       endPos := Val (reverseIdx + int (length (seq p))),
                       orientation := Val ''reverse (RC)''\<rparr>
                  else
                    p\<lparr>start := Val (- 1), endPos := Val (- 1),
                       orientation := Val ''not found''\<rparr>)))"

text \<open>
  \<open>checkAllDimers\<close>: every pair \<open>i < j\<close> in input order, \<open>i\<close> in the outer loop, with the
  default \<open>minMatch = 3\<close>; the records of each pair are appended.
\<close>

fun checkAllDimers :: "primer list \<Rightarrow> dimer list" where
  "checkAllDimers [] = []"
| "checkAllDimers (p1 # ps) =
     concat (map (\<lambda>p2. checkDimer (name p1) (seq p1) (name p2) (seq p2) 3) ps)
     @ checkAllDimers ps"

text \<open>
  \<open>attachPrimerPositions\<close> mutates the primers in place and returns the dimer records;
  the model returns both.
\<close>

definition attachPrimerPositions :: "string \<Rightarrow> primer list \<Rightarrow> primer list \<times> dimer list" where
  "attachPrimerPositions gene0 primers =
     (let gene = toUpperCase gene0;
          primers' = map (attachPrimer gene) primers
      in (primers', checkAllDimers primers'))"

section \<open>Vocabulary of the specification\<close>

text \<open>
  These definitions are not translated from the source. They say, in the words of the
  specification, what the theorems below compare the source with: a verbatim occurrence
  of a string at an index of another, and the two hypotheses under which a composite
  primer splits at a given length of its trailing part.
\<close>

definition occursAt :: "'a list \<Rightarrow> 'a list \<Rightarrow> nat \<Rightarrow> bool" where
  "occursAt hay needle i =
     (i + length needle \<le> length hay \<and> take (length needle) (drop i hay) = needle)"

definition occursIn :: "'a list \<Rightarrow> 'a list \<Rightarrow> bool" where
  "occursIn hay needle = (\<exists>i \<in> {..length hay}. occursAt hay needle i)"

definition firstOccurrence :: "'a list \<Rightarrow> 'a list \<Rightarrow> nat \<Rightarrow> bool" where
  "firstOccurrence hay needle i =
     (occursAt hay needle i \<and> (\<forall>j \<in> {..<i}. \<not> occursAt hay needle j))"

text \<open>The trailing \<open>k\<close> symbols of a sequence, and what is left before them.\<close>

definition trailing :: "nat \<Rightarrow> 'a list \<Rightarrow> 'a list" where
  "trailing k s = drop (length s - k) s"

definition leading :: "nat \<Rightarrow> 'a list \<Rightarrow> 'a list" where
  "leading k s = take (length s - k) s"

text \<open>
  The forward-right hypothesis: the trailing part occurs in the gene and the reverse
  complement of the leading part occurs in the gene. The swapped hypothesis exchanges
  the two parts.
\<close>

definition forwardRight :: "string \<Rightarrow> string \<Rightarrow> nat \<Rightarrow> bool" where
  "forwardRight s gene k =
     (occursIn gene (trailing k s) \<and> occursIn gene (revcomp (leading k s)))"

definition swappedBinding :: "string \<Rightarrow> string \<Rightarrow> nat \<Rightarrow> bool" where
  "swappedBinding s gene k =
     (occursIn gene (leading k s) \<and> occursIn gene (revcomp (trailing k s)))"

text \<open>
  The candidate lengths of the trailing part that \<open>splitInnerPrimer\<close> enumerates.
\<close>

definition candidate :: "string \<Rightarrow> nat \<Rightarrow> bool" where
  "candidate s k = (15 \<le> k \<and> k \<le> 35 \<and> k + 10 < length s)"

text \<open>
  A valid split at \<open>k\<close>: \<open>k\<close> is a candidate and one of the two hypotheses holds. The
  chosen split is the valid split with the smallest \<open>k\<close>.
\<close>

definition validSplit :: "string \<Rightarrow> string \<Rightarrow> nat \<Rightarrow> bool" where
  "validSplit s gene k =
     (candidate s k \<and> (forwardRight s gene k \<or> swappedBinding s gene k))"

definition chosenSplit :: "string \<Rightarrow> string \<Rightarrow> nat \<Rightarrow> bool" where
  "chosenSplit s gene k =
     (validSplit s gene k \<and> (\<forall>j \<in> {15..<k}. \<not> validSplit s gene j))"

text \<open>
  A dimer match of length \<open>m\<close> from \<open>a\<close> into \<open>b\<close>: \<open>a\<close> has \<open>m\<close> terminal symbols
  and their reverse complement occurs in \<open>b\<close>.
\<close>

definition dimerMatch :: "string \<Rightarrow> string \<Rightarrow> int \<Rightarrow> bool" where
  "dimerMatch a b m =
     (m \<le> int (length a) \<and> occursIn b (revcomp (trailing (nat m) a)))"

text \<open>
  What one direction of \<open>checkDimer\<close> contributes, in the words of the specification:
  no record when no length from \<open>minMatch\<close> to 8 matches; otherwise exactly one record,
  for the largest matching length, bound at the first occurrence.
\<close>

definition directionRecords ::
  "string \<Rightarrow> string \<Rightarrow> string \<Rightarrow> string \<Rightarrow> string \<Rightarrow> int \<Rightarrow> dimer list \<Rightarrow> bool"
where
  "directionRecords nameA a nameB b dir minMatch rs =
     ((rs = [] \<and> (\<forall>m \<in> {minMatch..8}. \<not> dimerMatch a b m))
      \<or> (\<exists>m \<in> {minMatch..8}. \<exists>i \<in> {..length b}.
            dimerMatch a b m \<and> (\<forall>m' \<in> {m<..8}. \<not> dimerMatch a b m')
            \<and> firstOccurrence b (revcomp (trailing (nat m) a)) i
            \<and> rs = [\<lparr>primer1 = nameA, primer2 = nameB,
                      primer1_3prime = trailing (nat m) a,
                      primer1_3prime_rc = revcomp (trailing (nat m) a),
                      bindingPos = int i, matchLength = m, direction = dir\<rparr>]))"

text \<open>
  The object that \<open>parsePrimers\<close> of \<open>ui.js\<close> pushes for a line \<open>NAME=SEQUENCE\<close>, before
  any analysis: \<open>start\<close>, \<open>end\<close> and \<open>orientation\<close> are \<open>null\<close>, \<open>isInner\<close> is
  \<open>false\<close>, and no other property exists.
\<close>

definition parsedPrimer :: "string \<Rightarrow> string \<Rightarrow> primer" where
  "parsedPrimer nm sq =
     \<lparr>name = nm, seq = sq, start = Null, endPos = Null, orientation = Null,
      isInner = Val False, pLeft = Undefined, pRight = Undefined, pLeftType = Undefined,
      pRightType = Undefined, pLeftStart = Undefined, pLeftEnd = Undefined,
      pRightStart = Undefined, pRightEnd = Undefined, hairpin3 = Undefined,
      hairpin5 = Undefined, hasHairpin = Undefined\<rparr>"

section \<open>Properties of the reverse complement\<close>

lemma complement_complement: "complement (complement c) = c"
  by (simp add: complement_def)

lemma revcomp_revcomp: "revcomp (revcomp s) = s"
  by (simp add: revcomp_def rev_map complement_complement comp_def)

lemma length_revcomp: "length (revcomp s) = length s"
  by (simp add: revcomp_def)

text \<open>
  C7. \<open>revcomp\<close> is an involution on DNA strings: for every string \<open>s\<close> over the alphabet
  A, C, G, T, \<open>revcomp (revcomp s) = s\<close>.
\<close>

theorem revcomp_involution:
  "set s \<subseteq> {CHR ''A'', CHR ''C'', CHR ''G'', CHR ''T''} \<Longrightarrow> revcomp (revcomp s) = s"
  by (rule revcomp_revcomp)

theorem revcomp_involution_witness:
  "set ''AATTCC'' \<subseteq> {CHR ''A'', CHR ''C'', CHR ''G'', CHR ''T''}
   \<and> revcomp ''AATTCC'' = ''GGAATT''
   \<and> revcomp (revcomp ''AATTCC'') = ''AATTCC''"
  using revcomp_involution [of "''AATTCC''"]
  by (simp add: revcomp_def complement_def)

section \<open>Properties of the hairpin scan\<close>

lemma length_toUpperCase: "length (toUpperCase s) = length s"
  by (simp add: toUpperCase_def)

lemma slice2_nonneg:
  "0 \<le> a \<Longrightarrow> a \<le> b \<Longrightarrow> b \<le> int (length s) \<Longrightarrow>
   slice2 s a b = take (nat (b - a)) (drop (nat a) s)"
  by (simp add: slice2_def sliceIndex_def Let_def min_def)

lemma slice1_tail:
  "0 < k \<Longrightarrow> k \<le> int (length s) \<Longrightarrow> slice1 s (- k) = drop (nat (int (length s) - k)) s"
  by (simp add: slice1_def slice2_def sliceIndex_def Let_def max_def)

lemma slice2_init:
  "0 < k \<Longrightarrow> slice2 s 0 (- k) = take (nat (int (length s) - k)) s"
  by (simp add: slice2_def sliceIndex_def Let_def max_def)

lemma loop3Prime_Some:
  "loop3Prime n scanStart stemLen stem rcStem searchRegion maxLoop l0 = Some r \<Longrightarrow>
   hairpinType r = ''3prime'' \<and> stemSeq r = stem \<and> stemRC r = rcStem \<and> stemLength r = stemLen
   \<and> l0 \<le> loopLength r \<and> loopLength r \<le> maxLoop
   \<and> pos3PrimeStart r = n - stemLen \<and> pos3PrimeEnd r = n
   \<and> posUpstreamStart r = scanStart + (int (length searchRegion) - stemLen - loopLength r)
   \<and> posUpstreamEnd r = posUpstreamStart r + stemLen
   \<and> 0 \<le> int (length searchRegion) - stemLen - loopLength r
   \<and> slice2 searchRegion (int (length searchRegion) - stemLen - loopLength r)
        (int (length searchRegion) - stemLen - loopLength r + stemLen) = rcStem"
proof (induction n scanStart stemLen stem rcStem searchRegion maxLoop l0
       rule: loop3Prime.induct)
  case (1 n scanStart stemLen stem rcStem searchRegion maxLoop loop)
  let ?start = "int (length searchRegion) - stemLen - loop"
  from "1.prems" have le: "loop \<le> maxLoop" and st: "\<not> ?start < 0"
    by (subst (asm) loop3Prime.simps, simp split: if_splits)+
  show ?case
  proof (cases "slice2 searchRegion ?start (?start + stemLen) = rcStem")
    case True
    with "1.prems" le st show ?thesis
      by (subst (asm) loop3Prime.simps) auto
  next
    case False
    with "1.prems" le st
    have "loop3Prime n scanStart stemLen stem rcStem searchRegion maxLoop (loop + 1) = Some r"
      by (subst (asm) loop3Prime.simps) simp
    from "1.IH" [OF le st False this] show ?thesis by simp
  qed
qed

lemma stem3Prime_Some:
  "stem3Prime n scanStart scanRegion minStem maxLoop s0 = Some r \<Longrightarrow>
   \<exists>stemLen. minStem \<le> stemLen \<and> stemLen \<le> s0 \<and>
     loop3Prime n scanStart stemLen (slice1 scanRegion (- stemLen))
       (revcomp (slice1 scanRegion (- stemLen))) (slice2 scanRegion 0 (- stemLen)) maxLoop 3
       = Some r"
proof (induction n scanStart scanRegion minStem maxLoop s0 rule: stem3Prime.induct)
  case (1 n scanStart scanRegion minStem maxLoop stemLen)
  show ?case
  proof (cases "loop3Prime n scanStart stemLen (slice1 scanRegion (- stemLen))
       (revcomp (slice1 scanRegion (- stemLen))) (slice2 scanRegion 0 (- stemLen)) maxLoop 3")
    case None
    with "1.prems" have ge: "minStem \<le> stemLen"
      and rec: "stem3Prime n scanStart scanRegion minStem maxLoop (stemLen - 1) = Some r"
      by (subst (asm) stem3Prime.simps, simp split: if_splits)+
    from "1.IH" [OF ge None rec] obtain k where "minStem \<le> k" "k \<le> stemLen - 1"
      "loop3Prime n scanStart k (slice1 scanRegion (- k)) (revcomp (slice1 scanRegion (- k)))
         (slice2 scanRegion 0 (- k)) maxLoop 3 = Some r" by blast
    then show ?thesis by (intro exI [of _ k]) simp
  next
    case (Some a)
    with "1.prems" have "minStem \<le> stemLen" "a = r"
      by (subst (asm) stem3Prime.simps, simp split: if_splits)+
    with Some show ?thesis by auto
  qed
qed

lemma checkHairpin3Prime_Some:
  assumes res: "checkHairpin3Prime primer maxStem minStem maxLoop = Some r"
    and pos: "1 \<le> minStem"
  shows "minStem \<le> stemLength r \<and> stemLength r \<le> maxStem
    \<and> 3 \<le> loopLength r \<and> loopLength r \<le> maxLoop
    \<and> int (length primer) - 15 \<le> posUpstreamStart r
    \<and> 0 \<le> posUpstreamStart r
    \<and> posUpstreamEnd r = posUpstreamStart r + stemLength r
    \<and> pos3PrimeStart r = posUpstreamEnd r + loopLength r
    \<and> pos3PrimeEnd r = pos3PrimeStart r + stemLength r
    \<and> pos3PrimeEnd r = int (length primer)
    \<and> stemRC r = revcomp (stemSeq r)
    \<and> take (nat (stemLength r)) (drop (nat (pos3PrimeStart r)) (toUpperCase primer)) = stemSeq r
    \<and> take (nat (stemLength r)) (drop (nat (posUpstreamStart r)) (toUpperCase primer)) = stemRC r"
proof -
  define P where "P = toUpperCase primer"
  define n where "n = int (length P)"
  define W where "W = (if n > 15 then slice1 P (- 15) else P)"
  define scanStart where "scanStart = (if n > 15 then n - 15 else 0)"
  define m where "m = int (length W)"
  have W_drop: "W = drop (nat scanStart) P"
    by (simp add: W_def scanStart_def n_def slice1_tail)
  have m_eq: "scanStart = n - m" and m_le: "m \<le> 15" and m_n: "m \<le> n"
    by (auto simp: m_def W_drop scanStart_def n_def)
  have nlen: "n = int (length primer)"
    by (simp add: n_def P_def length_toUpperCase)
  from res have "stem3Prime n scanStart W minStem maxLoop maxStem = Some r"
    by (simp add: checkHairpin3Prime_def Let_def P_def n_def W_def scanStart_def
          split: if_splits)
  then obtain k where k: "minStem \<le> k" "k \<le> maxStem"
    and lp: "loop3Prime n scanStart k (slice1 W (- k)) (revcomp (slice1 W (- k)))
               (slice2 W 0 (- k)) maxLoop 3 = Some r"
    by (blast dest: stem3Prime_Some)
  have kpos: "0 < k" using k pos by simp
  define S where "S = slice2 W 0 (- k)"
  have S_take: "S = take (nat (m - k)) W"
    by (simp add: S_def slice2_init kpos m_def)
  note f = loop3Prime_Some [OF lp, folded S_def]
  define l where "l = loopLength r"
  have l3: "3 \<le> l" "l \<le> maxLoop" using f by (simp_all add: l_def)
  have "0 \<le> int (length S) - k - l" using f by (simp add: l_def)
  then have room: "k + l \<le> m - k" using kpos l3
    by (simp add: S_take m_def split: if_splits) 
  then have lenS: "int (length S) = m - k" using kpos l3
    by (simp add: S_take m_def)
  have stem: "stemSeq r = drop (nat (m - k)) W"
    using f room kpos l3 by (simp add: slice1_tail m_def)
  have up: "posUpstreamStart r = n - k - l - k"
    using f lenS m_eq by (simp add: l_def)
  have win: "take (nat k) (drop (nat (m - k - k - l)) S) = stemRC r"
  proof -
    have "slice2 S (m - k - k - l) (m - k - k - l + k) = stemRC r"
      using f lenS by (simp add: l_def)
    moreover have "slice2 S (m - k - k - l) (m - k - k - l + k)
        = take (nat ((m - k - k - l + k) - (m - k - k - l))) (drop (nat (m - k - k - l)) S)"
      using room kpos l3 lenS by (intro slice2_nonneg) simp_all
    ultimately show ?thesis by simp
  qed
  have win': "take (nat k) (drop (nat (m - k - k - l)) S)
      = take (nat k) (drop (nat (m - k - k - l)) W)"
    using room kpos l3 by (simp add: S_take take_drop min_def)
  have dropP: "\<And>j. 0 \<le> j \<Longrightarrow> drop (nat j) W = drop (nat (scanStart + j)) P"
    using m_n m_eq by (simp add: W_drop nat_add_distrib add.commute)
  have sc0: "0 \<le> scanStart" by (simp add: scanStart_def)
  have c5: "stemRC r = revcomp (stemSeq r)" using f by (elim conjE) simp
  have c1: "stemLength r = k" "loopLength r = l"
    "pos3PrimeStart r = n - k" "pos3PrimeEnd r = n"
    "posUpstreamEnd r = posUpstreamStart r + k"
    using f by (simp_all add: l_def)
  have a1: "scanStart + (m - k) = n - k" "scanStart + (m - k - k - l) = n - k - l - k"
    using m_eq by simp_all
  have c2: "take (nat k) (drop (nat (n - k)) P) = stemSeq r"
  proof -
    have "length (drop (nat (m - k)) W) = nat k"
      using room kpos l3 by (simp add: m_def)
    then have "take (nat k) (drop (nat (m - k)) W) = drop (nat (m - k)) W" by simp
    moreover have "drop (nat (m - k)) W = drop (nat (n - k)) P"
    proof -
      have "scanStart + (m - k) = n - k" using m_eq by simp
      moreover have "0 \<le> m - k" using room kpos l3 by simp
      ultimately show ?thesis using dropP [of "m - k"] by metis
    qed
    ultimately show ?thesis using stem by simp
  qed
  have c3: "take (nat k) (drop (nat (n - k - l - k)) P) = stemRC r"
  proof -
    have "scanStart + (m - k - k - l) = n - k - l - k" using m_eq by simp
    moreover have "0 \<le> m - k - k - l" using room by simp
    ultimately have "drop (nat (m - k - k - l)) W = drop (nat (n - k - l - k)) P"
      using dropP [of "m - k - k - l"] by metis
    with win win' show ?thesis by simp
  qed
  have c4: "n - 15 \<le> posUpstreamStart r" "0 \<le> posUpstreamStart r"
    using up room m_le m_eq sc0 by simp_all
  show ?thesis
    unfolding c1 up
    using k l3 c2 c3 c4 c5 kpos by (simp add: nlen [symmetric] P_def [symmetric] up)
qed

lemma offsetBy_record:
  "offsetBy d \<lparr>hairpinType = t, stemSeq = s, stemRC = rc, stemLength = k, loopLength = l,
       pos3PrimeStart = a, pos3PrimeEnd = b, posUpstreamStart = u, posUpstreamEnd = v\<rparr>
   = \<lparr>hairpinType = t, stemSeq = s, stemRC = rc, stemLength = k, loopLength = l,
       pos3PrimeStart = a + d, pos3PrimeEnd = b + d, posUpstreamStart = u + d,
       posUpstreamEnd = v + d\<rparr>"
  by (simp add: offsetBy_def)

lemma loop3Prime_offset:
  "loop3Prime (n + d) (scanStart + d) stemLen stem rcStem searchRegion maxLoop l0
   = map_option (offsetBy d) (loop3Prime n scanStart stemLen stem rcStem searchRegion maxLoop l0)"
proof (induction n scanStart stemLen stem rcStem searchRegion maxLoop l0
       rule: loop3Prime.induct)
  case (1 n scanStart stemLen stem rcStem searchRegion maxLoop loop)
  show ?case
    apply (subst loop3Prime.simps)
    apply (subst (2) loop3Prime.simps)
    using "1.IH" apply (simp add: offsetBy_record)
    done
qed

lemma stem3Prime_offset:
  "stem3Prime (n + d) (scanStart + d) scanRegion minStem maxLoop s0
   = map_option (offsetBy d) (stem3Prime n scanStart scanRegion minStem maxLoop s0)"
proof (induction n scanStart scanRegion minStem maxLoop s0 rule: stem3Prime.induct)
  case (1 n scanStart scanRegion minStem maxLoop stemLen)
  show ?case
    apply (subst stem3Prime.simps)
    apply (subst (2) stem3Prime.simps)
    using "1.IH" apply (simp add: loop3Prime_offset split: option.splits)
    done
qed

lemma toUpperCase_drop: "toUpperCase (drop k s) = drop k (toUpperCase s)"
  by (simp add: toUpperCase_def drop_map)

lemma toUpperCase_take: "toUpperCase (take k s) = take k (toUpperCase s)"
  by (simp add: toUpperCase_def take_map)

lemma checkHairpin3Prime_window:
  assumes "15 < length primer"
  shows "checkHairpin3Prime primer maxStem minStem maxLoop
    = map_option (offsetBy (int (length primer) - 15))
        (checkHairpin3Prime (drop (length primer - 15) primer) maxStem minStem maxLoop)"
proof -
  define P where "P = toUpperCase primer"
  have len: "length P = length primer" by (simp add: P_def length_toUpperCase)
  have W: "slice1 P (- 15) = drop (length primer - 15) P"
    using assms len by (simp add: slice1_tail nat_diff_distrib')
  have l: "checkHairpin3Prime primer maxStem minStem maxLoop
      = stem3Prime (int (length primer)) (int (length primer) - 15)
          (drop (length primer - 15) P) minStem maxLoop maxStem"
    using assms by (simp add: checkHairpin3Prime_def Let_def P_def [symmetric] len W)
  have r: "checkHairpin3Prime (drop (length primer - 15) primer) maxStem minStem maxLoop
      = stem3Prime 15 0 (drop (length primer - 15) P) minStem maxLoop maxStem"
    using assms by (simp add: checkHairpin3Prime_def Let_def toUpperCase_drop
        P_def [symmetric] len)
  show ?thesis
    unfolding l r
    using stem3Prime_offset [of 15 "int (length primer) - 15" 0] by simp
qed

lemma checkHairpin5Prime_window:
  assumes "15 < length primer"
  shows "checkHairpin5Prime primer maxStem minStem maxLoop
    = checkHairpin5Prime (take 15 primer) maxStem minStem maxLoop"
  using assms
  by (simp add: checkHairpin5Prime_def Let_def toUpperCase_take length_toUpperCase
      slice2_nonneg)

lemma loop5Prime_Some:
  "loop5Prime stemLen stem rcStem scanRegion maxLoop l0 = Some r \<Longrightarrow>
   hairpinType5 r = ''5prime'' \<and> stemSeq5 r = stem \<and> stemRC5 r = rcStem
   \<and> stemLength5 r = stemLen \<and> l0 \<le> loopLength5 r \<and> loopLength5 r \<le> maxLoop
   \<and> pos5PrimeStart r = 0 \<and> pos5PrimeEnd r = stemLen
   \<and> posDownstreamStart r = stemLen + loopLength5 r
   \<and> posDownstreamEnd r = posDownstreamStart r + stemLen
   \<and> posDownstreamEnd r \<le> int (length scanRegion)
   \<and> slice2 scanRegion (stemLen + loopLength5 r) (stemLen + loopLength5 r + stemLen) = rcStem"
proof (induction stemLen stem rcStem scanRegion maxLoop l0 rule: loop5Prime.induct)
  case (1 stemLen stem rcStem scanRegion maxLoop loop)
  let ?e = "stemLen + loop + stemLen"
  from "1.prems" have le: "loop \<le> maxLoop" and st: "\<not> ?e > int (length scanRegion)"
    by (subst (asm) loop5Prime.simps, simp split: if_splits)+
  show ?case
  proof (cases "slice2 scanRegion (stemLen + loop) ?e = rcStem")
    case True
    with "1.prems" le st show ?thesis
      by (subst (asm) loop5Prime.simps) auto
  next
    case False
    with "1.prems" le st
    have "loop5Prime stemLen stem rcStem scanRegion maxLoop (loop + 1) = Some r"
      by (subst (asm) loop5Prime.simps) simp
    from "1.IH" [OF le st False this] show ?thesis by simp
  qed
qed

lemma stem5Prime_Some:
  "stem5Prime scanRegion minStem maxLoop s0 = Some r \<Longrightarrow>
   \<exists>stemLen. minStem \<le> stemLen \<and> stemLen \<le> s0 \<and>
     loop5Prime stemLen (slice2 scanRegion 0 stemLen) (revcomp (slice2 scanRegion 0 stemLen))
       scanRegion maxLoop 3 = Some r"
proof (induction scanRegion minStem maxLoop s0 rule: stem5Prime.induct)
  case (1 scanRegion minStem maxLoop stemLen)
  show ?case
  proof (cases "loop5Prime stemLen (slice2 scanRegion 0 stemLen)
       (revcomp (slice2 scanRegion 0 stemLen)) scanRegion maxLoop 3")
    case None
    with "1.prems" have ge: "minStem \<le> stemLen"
      and rec: "stem5Prime scanRegion minStem maxLoop (stemLen - 1) = Some r"
      by (subst (asm) stem5Prime.simps, simp split: if_splits)+
    from "1.IH" [OF ge None rec] obtain k where "minStem \<le> k" "k \<le> stemLen - 1"
      "loop5Prime k (slice2 scanRegion 0 k) (revcomp (slice2 scanRegion 0 k))
         scanRegion maxLoop 3 = Some r" by blast
    then show ?thesis by (intro exI [of _ k]) simp
  next
    case (Some a)
    with "1.prems" have "minStem \<le> stemLen" "a = r"
      by (subst (asm) stem5Prime.simps, simp split: if_splits)+
    with Some show ?thesis by auto
  qed
qed

lemma checkHairpin5Prime_Some:
  assumes res: "checkHairpin5Prime primer maxStem minStem maxLoop = Some r"
    and pos: "1 \<le> minStem"
  shows "minStem \<le> stemLength5 r \<and> stemLength5 r \<le> maxStem
    \<and> 3 \<le> loopLength5 r \<and> loopLength5 r \<le> maxLoop
    \<and> pos5PrimeStart r = 0 \<and> pos5PrimeEnd r = stemLength5 r
    \<and> posDownstreamStart r = pos5PrimeEnd r + loopLength5 r
    \<and> posDownstreamEnd r = posDownstreamStart r + stemLength5 r
    \<and> posDownstreamEnd r \<le> 15 \<and> posDownstreamEnd r \<le> int (length primer)
    \<and> stemRC5 r = revcomp (stemSeq5 r)
    \<and> take (nat (stemLength5 r)) (toUpperCase primer) = stemSeq5 r
    \<and> take (nat (stemLength5 r)) (drop (nat (posDownstreamStart r)) (toUpperCase primer))
        = stemRC5 r"
proof -
  define P where "P = toUpperCase primer"
  define W where "W = (if int (length P) > 15 then slice2 P 0 15 else P)"
  define m where "m = int (length W)"
  have W_take: "W = take 15 P"
    by (simp add: W_def slice2_nonneg)
  have m_le: "m \<le> 15" "m \<le> int (length primer)"
    by (simp_all add: m_def W_take P_def length_toUpperCase)
  from res have "stem5Prime W minStem maxLoop maxStem = Some r"
    by (simp add: checkHairpin5Prime_def Let_def P_def W_def split: if_splits)
  then obtain k where k: "minStem \<le> k" "k \<le> maxStem"
    and lp: "loop5Prime k (slice2 W 0 k) (revcomp (slice2 W 0 k)) W maxLoop 3 = Some r"
    by (blast dest: stem5Prime_Some)
  have kpos: "0 < k" using k pos by simp
  note f = loop5Prime_Some [OF lp]
  define l where "l = loopLength5 r"
  have l3: "3 \<le> l" "l \<le> maxLoop" using f by (simp_all add: l_def)
  have room: "k + l + k \<le> m" using f by (simp add: l_def m_def)
  have c1: "stemLength5 r = k" "loopLength5 r = l" "pos5PrimeStart r = 0" "pos5PrimeEnd r = k"
    "posDownstreamStart r = k + l" "posDownstreamEnd r = k + l + k"
    using f by (simp_all add: l_def)
  have c5: "stemRC5 r = revcomp (stemSeq5 r)" using f by (elim conjE) simp
  have c2: "take (nat k) P = stemSeq5 r"
  proof -
    have "slice2 W 0 k = take (nat (k - 0)) (drop (nat 0) W)"
      using room kpos l3 by (intro slice2_nonneg) (simp_all add: m_def)
    then have "stemSeq5 r = take (nat k) W" using f by (elim conjE) simp
    also have "\<dots> = take (nat k) P" using room kpos l3 m_le by (simp add: W_take min_def)
    finally show ?thesis by simp
  qed
  have c3: "take (nat k) (drop (nat (k + l)) P) = stemRC5 r"
  proof -
    have "slice2 W (k + l) (k + l + k) = take (nat ((k + l + k) - (k + l))) (drop (nat (k + l)) W)"
      using room kpos l3 by (intro slice2_nonneg) (simp_all add: m_def)
    then have "stemRC5 r = take (nat k) (drop (nat (k + l)) W)" using f by (simp add: l_def)
    also have "\<dots> = take (nat k) (drop (nat (k + l)) P)"
      using room kpos l3 m_le by (simp add: W_take drop_take min_def)
    finally show ?thesis by simp
  qed
  show ?thesis
    unfolding c1
    using k l3 c2 c3 c5 kpos room m_le by (simp add: P_def [symmetric])
qed

text \<open>
  C10. Whenever \<open>checkHairpin3Prime\<close>, with its default parameters, returns a result
  for an input of length \<open>n\<close>, the result is consistent: the stem length is between 2
  and 6, the loop length between 3 and 12,
  \<open>0 \<le> posUpstreamStart < posUpstreamEnd \<le> pos3PrimeStart < pos3PrimeEnd = n\<close>, the
  gap between the two ranges is the loop length, \<open>stemRC\<close> is the reverse complement of
  \<open>stemSeq\<close>, and the uppercased input reads \<open>stemSeq\<close> at the 3' range and \<open>stemRC\<close>
  at the upstream range.
\<close>

theorem checkHairpin3Prime_consistent:
  assumes "checkHairpin3Prime primer 6 2 12 = Some r"
  shows "2 \<le> stemLength r \<and> stemLength r \<le> 6 \<and> 3 \<le> loopLength r \<and> loopLength r \<le> 12
    \<and> 0 \<le> posUpstreamStart r \<and> posUpstreamStart r < posUpstreamEnd r
    \<and> posUpstreamEnd r \<le> pos3PrimeStart r \<and> pos3PrimeStart r < pos3PrimeEnd r
    \<and> pos3PrimeEnd r = int (length primer)
    \<and> pos3PrimeStart r - posUpstreamEnd r = loopLength r
    \<and> stemRC r = revcomp (stemSeq r)
    \<and> take (nat (pos3PrimeEnd r - pos3PrimeStart r)) (drop (nat (pos3PrimeStart r))
          (toUpperCase primer)) = stemSeq r
    \<and> take (nat (posUpstreamEnd r - posUpstreamStart r)) (drop (nat (posUpstreamStart r))
          (toUpperCase primer)) = stemRC r"
proof -
  have "(1::int) \<le> 2" by simp
  note f = checkHairpin3Prime_Some [OF assms this]
  from f have k: "2 \<le> stemLength r" "stemLength r \<le> 6" by blast+
  from f have l: "3 \<le> loopLength r" "loopLength r \<le> 12" by blast+
  from f have u: "0 \<le> posUpstreamStart r"
    "posUpstreamEnd r = posUpstreamStart r + stemLength r" by blast+
  from f have t: "pos3PrimeStart r = posUpstreamEnd r + loopLength r"
    "pos3PrimeEnd r = pos3PrimeStart r + stemLength r"
    "pos3PrimeEnd r = int (length primer)" by blast+
  from f have s: "stemRC r = revcomp (stemSeq r)"
    "take (nat (stemLength r)) (drop (nat (pos3PrimeStart r)) (toUpperCase primer)) = stemSeq r"
    "take (nat (stemLength r)) (drop (nat (posUpstreamStart r)) (toUpperCase primer)) = stemRC r"
    by blast+
  have d: "pos3PrimeEnd r - pos3PrimeStart r = stemLength r"
    "posUpstreamEnd r - posUpstreamStart r = stemLength r"
    using u t by simp_all
  show ?thesis
    unfolding d using k l u t s by (intro conjI) simp_all
qed

lemma upper_TTTTTT: "toUpperCase ''ACGTACGTAAGGGGTTTTTTCCCC'' = ''ACGTACGTAAGGGGTTTTTTCCCC''"
  by (simp add: toUpperCase_def upperChar_def)

lemma result_TTTTTT:
  "checkHairpin3Prime ''ACGTACGTAAGGGGTTTTTTCCCC'' 6 2 12
   = Some \<lparr>hairpinType = ''3prime'', stemSeq = ''CCCC'', stemRC = ''GGGG'', stemLength = 4,
       loopLength = 6, pos3PrimeStart = 20, pos3PrimeEnd = 24, posUpstreamStart = 10,
       posUpstreamEnd = 14\<rparr>"
  unfolding checkHairpin3Prime_def upper_TTTTTT
  by (simp add: Let_def stem3Prime.simps loop3Prime.simps slice1_def slice2_def
      sliceIndex_def revcomp_def complement_def)

theorem checkHairpin3Prime_consistent_witness:
  "checkHairpin3Prime ''ACGTACGTAAGGGGTTTTTTCCCC'' 6 2 12
   = Some \<lparr>hairpinType = ''3prime'', stemSeq = ''CCCC'', stemRC = ''GGGG'', stemLength = 4,
       loopLength = 6, pos3PrimeStart = 20, pos3PrimeEnd = 24, posUpstreamStart = 10,
       posUpstreamEnd = 14\<rparr>
   \<and> int (length ''ACGTACGTAAGGGGTTTTTTCCCC'') = 24
   \<and> take 4 (drop 20 (toUpperCase ''ACGTACGTAAGGGGTTTTTTCCCC'')) = ''CCCC''
   \<and> take 4 (drop 10 (toUpperCase ''ACGTACGTAAGGGGTTTTTTCCCC'')) = ''GGGG''
   \<and> revcomp ''CCCC'' = ''GGGG''"
  using checkHairpin3Prime_consistent [OF result_TTTTTT] result_TTTTTT by simp

text \<open>
  C4. For every input longer than 15 symbols the 3' scan reads only the last 15 symbols
  and the 5' scan only the first 15: the 3' result is the result on the last 15 symbols
  with the window offset \<open>n - 15\<close> added to its positions, and the 5' result is the result
  on the first 15 symbols. So a reported upstream stem never starts before the window, a
  reported downstream stem never ends after position 15, and the reported positions are
  positions of the full uppercased input, which reads the stem and its reverse complement
  there. This holds for every choice of the parameters with \<open>minStem \<ge> 1\<close>, the defaults
  among them. (In the instance below, the \<open>GGGG\<close> that pairs with the terminal \<open>CCCC\<close> of
  the second sequence lies before the window, and no hairpin is reported.)
\<close>

theorem hairpin_scan_window:
  assumes "15 < length primer" and "1 \<le> minStem"
  shows "checkHairpin3Prime primer maxStem minStem maxLoop
      = map_option (offsetBy (int (length primer) - 15))
          (checkHairpin3Prime (drop (length primer - 15) primer) maxStem minStem maxLoop)
    \<and> checkHairpin5Prime primer maxStem minStem maxLoop
      = checkHairpin5Prime (take 15 primer) maxStem minStem maxLoop
    \<and> (\<forall>r. checkHairpin3Prime primer maxStem minStem maxLoop = Some r \<longrightarrow>
          int (length primer) - 15 \<le> posUpstreamStart r
          \<and> posUpstreamStart r \<le> posUpstreamEnd r \<and> posUpstreamEnd r \<le> pos3PrimeStart r
          \<and> pos3PrimeStart r \<le> pos3PrimeEnd r \<and> pos3PrimeEnd r = int (length primer)
          \<and> take (nat (stemLength r)) (drop (nat (pos3PrimeStart r)) (toUpperCase primer))
              = stemSeq r
          \<and> take (nat (stemLength r)) (drop (nat (posUpstreamStart r)) (toUpperCase primer))
              = revcomp (stemSeq r))
    \<and> (\<forall>r. checkHairpin5Prime primer maxStem minStem maxLoop = Some r \<longrightarrow>
          pos5PrimeStart r = 0 \<and> pos5PrimeStart r \<le> pos5PrimeEnd r
          \<and> pos5PrimeEnd r \<le> posDownstreamStart r
          \<and> posDownstreamStart r \<le> posDownstreamEnd r \<and> posDownstreamEnd r \<le> 15
          \<and> take (nat (stemLength5 r)) (drop (nat (pos5PrimeStart r)) (toUpperCase primer))
              = stemSeq5 r
          \<and> take (nat (stemLength5 r)) (drop (nat (posDownstreamStart r))
                (toUpperCase primer)) = revcomp (stemSeq5 r))"
proof (intro conjI allI impI)
  show "checkHairpin3Prime primer maxStem minStem maxLoop
      = map_option (offsetBy (int (length primer) - 15))
          (checkHairpin3Prime (drop (length primer - 15) primer) maxStem minStem maxLoop)"
    using assms(1) by (rule checkHairpin3Prime_window)
  show "checkHairpin5Prime primer maxStem minStem maxLoop
      = checkHairpin5Prime (take 15 primer) maxStem minStem maxLoop"
    using assms(1) by (rule checkHairpin5Prime_window)
next
  fix r assume "checkHairpin3Prime primer maxStem minStem maxLoop = Some r"
  note f = checkHairpin3Prime_Some [OF this assms(2)]
  show "int (length primer) - 15 \<le> posUpstreamStart r" using f by (elim conjE) simp
  show "posUpstreamStart r \<le> posUpstreamEnd r" using f assms(2) by (elim conjE) simp
  show "posUpstreamEnd r \<le> pos3PrimeStart r" using f by (elim conjE) simp
  show "pos3PrimeStart r \<le> pos3PrimeEnd r" using f assms(2) by (elim conjE) simp
  show "pos3PrimeEnd r = int (length primer)" using f by (elim conjE) simp
  show "take (nat (stemLength r)) (drop (nat (pos3PrimeStart r)) (toUpperCase primer))
      = stemSeq r" using f by (elim conjE) simp
  show "take (nat (stemLength r)) (drop (nat (posUpstreamStart r)) (toUpperCase primer))
      = revcomp (stemSeq r)" using f by (elim conjE) simp
next
  fix r assume "checkHairpin5Prime primer maxStem minStem maxLoop = Some r"
  note f = checkHairpin5Prime_Some [OF this assms(2)]
  show "pos5PrimeStart r = 0" using f by (elim conjE) simp
  show "pos5PrimeStart r \<le> pos5PrimeEnd r" using f assms(2) by (elim conjE) simp
  show "pos5PrimeEnd r \<le> posDownstreamStart r" using f by (elim conjE) simp
  show "posDownstreamStart r \<le> posDownstreamEnd r" using f assms(2) by (elim conjE) simp
  show "posDownstreamEnd r \<le> 15" using f by (elim conjE) simp
  show "take (nat (stemLength5 r)) (drop (nat (pos5PrimeStart r)) (toUpperCase primer))
      = stemSeq5 r" using f by (elim conjE) simp
  show "take (nat (stemLength5 r)) (drop (nat (posDownstreamStart r)) (toUpperCase primer))
      = revcomp (stemSeq5 r)" using f by (elim conjE) simp
qed

lemma upper_both: "toUpperCase ''GGGGTTTTTTCCCCAAGGGGTTTTTTCCCC'' = ''GGGGTTTTTTCCCCAAGGGGTTTTTTCCCC''"
  by (simp add: toUpperCase_def upperChar_def)

lemma result3_both:
  "checkHairpin3Prime ''GGGGTTTTTTCCCCAAGGGGTTTTTTCCCC'' 6 2 12
   = Some \<lparr>hairpinType = ''3prime'', stemSeq = ''CCCC'', stemRC = ''GGGG'', stemLength = 4,
       loopLength = 6, pos3PrimeStart = 26, pos3PrimeEnd = 30, posUpstreamStart = 16,
       posUpstreamEnd = 20\<rparr>"
  unfolding checkHairpin3Prime_def upper_both
  by (simp add: Let_def stem3Prime.simps loop3Prime.simps slice1_def slice2_def
      sliceIndex_def revcomp_def complement_def)

lemma result5_both:
  "checkHairpin5Prime ''GGGGTTTTTTCCCCAAGGGGTTTTTTCCCC'' 6 2 12
   = Some \<lparr>hairpinType5 = ''5prime'', stemSeq5 = ''GGGG'', stemRC5 = ''CCCC'', stemLength5 = 4,
       loopLength5 = 6, pos5PrimeStart = 0, pos5PrimeEnd = 4, posDownstreamStart = 10,
       posDownstreamEnd = 14\<rparr>"
  unfolding checkHairpin5Prime_def upper_both
  by (simp add: Let_def stem5Prime.simps loop5Prime.simps slice1_def slice2_def
      sliceIndex_def revcomp_def complement_def)

theorem hairpin_scan_window_witness:
  "15 < length ''GGGGTTTTTTCCCCAAGGGGTTTTTTCCCC'' \<and> (1::int) \<le> 2
   \<and> checkHairpin3Prime ''GGGGTTTTTTCCCCAAGGGGTTTTTTCCCC'' 6 2 12
      = map_option (offsetBy 15) (checkHairpin3Prime ''AGGGGTTTTTTCCCC'' 6 2 12)
   \<and> checkHairpin5Prime ''GGGGTTTTTTCCCCAAGGGGTTTTTTCCCC'' 6 2 12
      = checkHairpin5Prime ''GGGGTTTTTTCCCCA'' 6 2 12
   \<and> checkHairpin3Prime ''GGGGTTTTTTCCCCAAGGGGTTTTTTCCCC'' 6 2 12
      = Some \<lparr>hairpinType = ''3prime'', stemSeq = ''CCCC'', stemRC = ''GGGG'', stemLength = 4,
       loopLength = 6, pos3PrimeStart = 26, pos3PrimeEnd = 30, posUpstreamStart = 16,
       posUpstreamEnd = 20\<rparr>
   \<and> checkHairpin5Prime ''GGGGTTTTTTCCCCAAGGGGTTTTTTCCCC'' 6 2 12
      = Some \<lparr>hairpinType5 = ''5prime'', stemSeq5 = ''GGGG'', stemRC5 = ''CCCC'',
       stemLength5 = 4, loopLength5 = 6, pos5PrimeStart = 0, pos5PrimeEnd = 4,
       posDownstreamStart = 10, posDownstreamEnd = 14\<rparr>
   \<and> take 4 (drop 26 (toUpperCase ''GGGGTTTTTTCCCCAAGGGGTTTTTTCCCC'')) = ''CCCC''
   \<and> take 4 (drop 16 (toUpperCase ''GGGGTTTTTTCCCCAAGGGGTTTTTTCCCC'')) = revcomp ''CCCC''
   \<and> take 4 (drop 10 (toUpperCase ''GGGGTTTTTTCCCCAAGGGGTTTTTTCCCC'')) = revcomp ''GGGG''
   \<and> 15 < length ''GGGGAAAAAAAAAAAAAAAAAAAACCCC''
   \<and> checkHairpin3Prime ''GGGGAAAAAAAAAAAAAAAAAAAACCCC'' 6 2 12 = None"
proof -
  have len2: "15 < length ''GGGGAAAAAAAAAAAAAAAAAAAACCCC''" by simp
  have "checkHairpin3Prime ''AAAAAAAAAAACCCC'' 6 2 12 = None" by code_simp
  with hairpin_scan_window [OF len2, of 2 6 12]
  have out: "checkHairpin3Prime ''GGGGAAAAAAAAAAAAAAAAAAAACCCC'' 6 2 12 = None" by simp
  have len: "15 < length ''GGGGTTTTTTCCCCAAGGGGTTTTTTCCCC''" by simp
  have m: "(1::int) \<le> 2" by simp
  note w = hairpin_scan_window [OF len m, of 6 12]
  from w have w3: "checkHairpin3Prime ''GGGGTTTTTTCCCCAAGGGGTTTTTTCCCC'' 6 2 12
      = map_option (offsetBy 15) (checkHairpin3Prime ''AGGGGTTTTTTCCCC'' 6 2 12)"
    by simp
  from w have w5: "checkHairpin5Prime ''GGGGTTTTTTCCCCAAGGGGTTTTTTCCCC'' 6 2 12
      = checkHairpin5Prime ''GGGGTTTTTTCCCCA'' 6 2 12"
    by simp
  from w result3_both have a:
    "take 4 (drop 26 (toUpperCase ''GGGGTTTTTTCCCCAAGGGGTTTTTTCCCC'')) = ''CCCC''"
    "take 4 (drop 16 (toUpperCase ''GGGGTTTTTTCCCCAAGGGGTTTTTTCCCC'')) = revcomp ''CCCC''"
    by simp_all
  from w result5_both have b:
    "take 4 (drop 10 (toUpperCase ''GGGGTTTTTTCCCCAAGGGGTTTTTTCCCC'')) = revcomp ''GGGG''"
    by simp
  show ?thesis
    using len w3 w5 a b result3_both result5_both len2 out by simp
qed

lemma upper_GGGGTTTAAACCCC: "toUpperCase ''GGGGTTTAAACCCC'' = ''GGGGTTTAAACCCC''"
  by (simp add: toUpperCase_def upperChar_def)

lemma result_window_TTTAAA:
  "checkHairpin3Prime (c # ''GGGGTTTAAACCCC'') 6 2 12
   = Some \<lparr>hairpinType = ''3prime'', stemSeq = ''ACCCC'', stemRC = ''GGGGT'', stemLength = 5,
       loopLength = 4, pos3PrimeStart = 10, pos3PrimeEnd = 15, posUpstreamStart = 1,
       posUpstreamEnd = 6\<rparr>"
proof -
  have u: "toUpperCase (c # ''GGGGTTTAAACCCC'') = upperChar c # ''GGGGTTTAAACCCC''"
    using upper_GGGGTTTAAACCCC by (simp add: toUpperCase_def)
  show ?thesis
    unfolding checkHairpin3Prime_def u
    by (simp add: Let_def stem3Prime.simps loop3Prime.simps slice1_def slice2_def
        sliceIndex_def revcomp_def complement_def)
qed

text \<open>
  C1 (as amended). For a sequence built as padding followed by
  \<open>GGGG\<close>, \<open>TTTAAA\<close>, \<open>CCCC\<close>, of total length over 15, \<open>checkHairpin3Prime\<close> with the
  default parameters returns a hairpin whose stem length is 5 and whose loop length is 4:
  the loop \<open>TTTAAA\<close> pairs with itself, so the terminal \<open>ACCCC\<close> pairs with the upstream
  \<open>GGGGT\<close>, and the longest stem wins. The position ranges are the full-sequence
  coordinates of the terminal \<open>ACCCC\<close> and of the upstream \<open>GGGGT\<close>, which starts where
  \<open>GGGG\<close> starts.
\<close>

theorem checkHairpin3Prime_constructed:
  assumes "15 < length (padding @ ''GGGG'' @ ''TTTAAA'' @ ''CCCC'')"
  shows "checkHairpin3Prime (padding @ ''GGGG'' @ ''TTTAAA'' @ ''CCCC'') 6 2 12
   = Some \<lparr>hairpinType = ''3prime'', stemSeq = ''ACCCC'', stemRC = ''GGGGT'', stemLength = 5,
       loopLength = 4,
       pos3PrimeStart = int (length padding) + 9, pos3PrimeEnd = int (length padding) + 14,
       posUpstreamStart = int (length padding), posUpstreamEnd = int (length padding) + 5\<rparr>"
proof -
  from assms have "padding \<noteq> []" by auto
  then obtain q c where pad: "padding = q @ [c]"
    by (metis rev_exhaust)
  let ?X = "padding @ ''GGGG'' @ ''TTTAAA'' @ ''CCCC''"
  have len: "length ?X = length q + 15" by (simp add: pad)
  have dr: "drop (length ?X - 15) ?X = c # ''GGGGTTTAAACCCC''"
    by (simp add: pad)
  have "checkHairpin3Prime ?X 6 2 12
      = map_option (offsetBy (int (length ?X) - 15)) (checkHairpin3Prime (drop (length ?X - 15) ?X) 6 2 12)"
    using assms by (rule checkHairpin3Prime_window)
  also have "\<dots> = map_option (offsetBy (int (length q)))
      (checkHairpin3Prime (c # ''GGGGTTTAAACCCC'') 6 2 12)"
    unfolding dr by (simp add: pad)
  finally show ?thesis
    by (simp add: result_window_TTTAAA offsetBy_record pad)
qed

theorem checkHairpin3Prime_constructed_witness:
  "15 < length (''AA'' @ ''GGGG'' @ ''TTTAAA'' @ ''CCCC'')
   \<and> checkHairpin3Prime (''AA'' @ ''GGGG'' @ ''TTTAAA'' @ ''CCCC'') 6 2 12
   = Some \<lparr>hairpinType = ''3prime'', stemSeq = ''ACCCC'', stemRC = ''GGGGT'', stemLength = 5,
       loopLength = 4, pos3PrimeStart = 11, pos3PrimeEnd = 16, posUpstreamStart = 2,
       posUpstreamEnd = 7\<rparr>"
  using checkHairpin3Prime_constructed [of "''AA''"] by simp

theorem checkHairpin3Prime_constructed_counterexample:
  "15 < length (''ACGTACGTAA'' @ ''GGGG'' @ ''TTTAAA'' @ ''CCCC'')
   \<and> map_option stemLength
        (checkHairpin3Prime (''ACGTACGTAA'' @ ''GGGG'' @ ''TTTAAA'' @ ''CCCC'') 6 2 12) \<noteq> Some 4
   \<and> map_option stemSeq
        (checkHairpin3Prime (''ACGTACGTAA'' @ ''GGGG'' @ ''TTTAAA'' @ ''CCCC'') 6 2 12)
       \<noteq> Some ''CCCC''
   \<and> checkHairpin3Prime (''ACGTACGTAA'' @ ''GGGG'' @ ''TTTAAA'' @ ''CCCC'') 6 2 12
   = Some \<lparr>hairpinType = ''3prime'', stemSeq = ''ACCCC'', stemRC = ''GGGGT'', stemLength = 5,
       loopLength = 4, pos3PrimeStart = 19, pos3PrimeEnd = 24, posUpstreamStart = 10,
       posUpstreamEnd = 15\<rparr>"
proof -
  have u: "toUpperCase ''ACGTACGTAAGGGGTTTAAACCCC'' = ''ACGTACGTAAGGGGTTTAAACCCC''"
    by (simp add: toUpperCase_def upperChar_def)
  have "checkHairpin3Prime ''ACGTACGTAAGGGGTTTAAACCCC'' 6 2 12
     = Some \<lparr>hairpinType = ''3prime'', stemSeq = ''ACCCC'', stemRC = ''GGGGT'', stemLength = 5,
       loopLength = 4, pos3PrimeStart = 19, pos3PrimeEnd = 24, posUpstreamStart = 10,
       posUpstreamEnd = 15\<rparr>"
    unfolding checkHairpin3Prime_def u
    by (simp add: Let_def stem3Prime.simps loop3Prime.simps slice1_def slice2_def
        sliceIndex_def revcomp_def complement_def)
  then show ?thesis by simp
qed


section \<open>Properties of \<open>indexOf\<close>\<close>

lemma prefix_take_eq: "prefix needle hay \<longleftrightarrow> take (length needle) hay = needle"
  by (metis append_eq_conv_conj prefix_def append_take_drop_id)

lemma occursAt_0: "occursAt hay needle 0 \<longleftrightarrow> prefix needle hay"
  by (auto simp: occursAt_def prefix_take_eq dest: prefix_length_le simp flip: prefix_take_eq)

lemma occursAt_Suc: "occursAt (h # hs) needle (Suc i) \<longleftrightarrow> occursAt hs needle i"
  by (simp add: occursAt_def)

lemma occursAt_Nil: "occursAt [] needle i \<longleftrightarrow> needle = [] \<and> i = 0"
  by (auto simp: occursAt_def)

lemma occursAt_le: "occursAt hay needle i \<Longrightarrow> i \<le> length hay"
  by (simp add: occursAt_def)

lemma occursIn_iff: "occursIn hay needle \<longleftrightarrow> (\<exists>i. occursAt hay needle i)"
  by (auto simp: occursIn_def dest: occursAt_le)

lemma occursIn_Cons:
  "occursIn (h # hs) needle \<longleftrightarrow> prefix needle (h # hs) \<or> occursIn hs needle"
proof
  assume "occursIn (h # hs) needle"
  then obtain i where i: "occursAt (h # hs) needle i" by (auto simp: occursIn_iff)
  show "prefix needle (h # hs) \<or> occursIn hs needle"
  proof (cases i)
    case 0 with i show ?thesis by (simp add: occursAt_0)
  next
    case (Suc j) with i show ?thesis by (auto simp: occursAt_Suc occursIn_iff)
  qed
next
  assume "prefix needle (h # hs) \<or> occursIn hs needle"
  then show "occursIn (h # hs) needle"
  proof
    assume "prefix needle (h # hs)"
    then have "occursAt (h # hs) needle 0" by (simp add: occursAt_0)
    then show ?thesis unfolding occursIn_iff by blast
  next
    assume "occursIn hs needle"
    then obtain i where "occursAt hs needle i" by (auto simp: occursIn_iff)
    then have "occursAt (h # hs) needle (Suc i)" by (simp add: occursAt_Suc)
    then show ?thesis unfolding occursIn_iff by blast
  qed
qed

lemma firstOccurrence_0: "prefix needle hay \<Longrightarrow> firstOccurrence hay needle 0"
  by (simp add: firstOccurrence_def occursAt_0)

lemma firstOccurrence_Suc:
  assumes "\<not> prefix needle (h # hs)" "firstOccurrence hs needle i"
  shows "firstOccurrence (h # hs) needle (Suc i)"
proof -
  have "\<not> occursAt (h # hs) needle j" if "j < Suc i" for j
  proof (cases j)
    case 0 with assms(1) show ?thesis by (simp add: occursAt_0)
  next
    case (Suc j') with that assms(2) show ?thesis
      by (simp add: occursAt_Suc firstOccurrence_def)
  qed
  with assms(2) show ?thesis by (simp add: firstOccurrence_def occursAt_Suc)
qed

lemma indexOfFrom_cases:
  "(\<not> occursIn hay needle \<and> indexOfFrom hay needle k = - 1)
   \<or> (\<exists>i. firstOccurrence hay needle i \<and> indexOfFrom hay needle k = int (k + i))"
proof (induction hay arbitrary: k)
  case Nil
  show ?case
    by (cases "needle = []")
      (auto simp: occursIn_iff occursAt_Nil firstOccurrence_def)
next
  case (Cons h hs)
  show ?case
  proof (cases "prefix needle (h # hs)")
    case True
    then show ?thesis using firstOccurrence_0 [of needle "h # hs"] by auto
  next
    case False
    from Cons.IH [of "Suc k"] show ?thesis
    proof
      assume "\<not> occursIn hs needle \<and> indexOfFrom hs needle (Suc k) = - 1"
      with False show ?thesis by (simp add: occursIn_Cons)
    next
      assume "\<exists>i. firstOccurrence hs needle i \<and> indexOfFrom hs needle (Suc k) = int (Suc k + i)"
      then obtain i where "firstOccurrence hs needle i"
        "indexOfFrom hs needle (Suc k) = int (Suc k + i)" by blast
      with False firstOccurrence_Suc [of needle h hs i] show ?thesis
        by (intro disjI2 exI [of _ "Suc i"]) simp
    qed
  qed
qed

lemma firstOccurrence_occursIn: "firstOccurrence hay needle i \<Longrightarrow> occursIn hay needle"
  by (auto simp: firstOccurrence_def occursIn_iff)

lemma firstOccurrence_unique:
  "firstOccurrence hay needle i \<Longrightarrow> firstOccurrence hay needle j \<Longrightarrow> i = j"
  by (metis firstOccurrence_def lessThan_iff linorder_neqE_nat)

lemma indexOf_none: "indexOf hay needle = - 1 \<longleftrightarrow> \<not> occursIn hay needle"
  using indexOfFrom_cases [of hay needle 0]
  by (auto simp: indexOf_def dest: firstOccurrence_occursIn)

lemma indexOf_first:
  "occursIn hay needle \<Longrightarrow> \<exists>i. firstOccurrence hay needle i \<and> indexOf hay needle = int i"
  using indexOfFrom_cases [of hay needle 0] by (auto simp: indexOf_def)

lemma indexOf_eq: "firstOccurrence hay needle i \<Longrightarrow> indexOf hay needle = int i"
  using indexOf_first [of hay needle] firstOccurrence_unique firstOccurrence_occursIn
  by blast

section \<open>Properties of the analysis pipeline\<close>

lemma fst_attachPrimerPositions:
  "fst (attachPrimerPositions gene primers) = map (attachPrimer (toUpperCase gene)) primers"
  by (simp add: attachPrimerPositions_def Let_def)

lemma scanHairpins_fields:
  "name (scanHairpins p) = name p" "seq (scanHairpins p) = seq p"
  "start (scanHairpins p) = start p" "endPos (scanHairpins p) = endPos p"
  "orientation (scanHairpins p) = orientation p"
  by (simp_all add: scanHairpins_def Let_def)

lemma attachPrimer_simple:
  assumes "toUpperCase (name p) \<noteq> ''FIP''" "toUpperCase (name p) \<noteq> ''BIP''"
  shows "attachPrimer g p = scanHairpins
           (if indexOf g (seq p) \<noteq> - 1 then
              p\<lparr>start := Val (indexOf g (seq p)),
                 endPos := Val (indexOf g (seq p) + int (length (seq p))),
                 orientation := Val ''forward''\<rparr>
            else if indexOf g (revcomp (seq p)) \<noteq> - 1 then
              p\<lparr>start := Val (indexOf g (revcomp (seq p))),
                 endPos := Val (indexOf g (revcomp (seq p)) + int (length (seq p))),
                 orientation := Val ''reverse (RC)''\<rparr>
            else p\<lparr>start := Val (- 1), endPos := Val (- 1),
                   orientation := Val ''not found''\<rparr>)"
  using assms by (simp add: attachPrimer_def Let_def)

text \<open>
  C6. For every simple primer (a primer whose name is neither FIP nor BIP) and gene,
  \<open>attachPrimerPositions\<close> resolves the binding location against the uppercased gene:
  when the primer occurs there, \<open>start\<close> is the index of its first occurrence, \<open>end\<close> is
  \<open>start\<close> plus the primer's length and the orientation is \<open>forward\<close>, whether or not the
  reverse complement occurs too; when only the reverse complement occurs, the same holds
  for the first occurrence of the reverse complement, with orientation \<open>reverse (RC)\<close>;
  when neither occurs, \<open>start = end = -1\<close> and the orientation is \<open>not found\<close>.
\<close>

theorem binding_location:
  assumes "k < length primers"
    and "toUpperCase (name (primers ! k)) \<noteq> ''FIP''"
    and "toUpperCase (name (primers ! k)) \<noteq> ''BIP''"
  shows "let g = toUpperCase gene; p = primers ! k;
             p' = fst (attachPrimerPositions gene primers) ! k
         in (occursIn g (seq p) \<longrightarrow>
               (\<exists>i. firstOccurrence g (seq p) i \<and> start p' = Val (int i)
                    \<and> endPos p' = Val (int i + int (length (seq p)))
                    \<and> orientation p' = Val ''forward''))
          \<and> (\<not> occursIn g (seq p) \<and> occursIn g (revcomp (seq p)) \<longrightarrow>
               (\<exists>i. firstOccurrence g (revcomp (seq p)) i \<and> start p' = Val (int i)
                    \<and> endPos p' = Val (int i + int (length (seq p)))
                    \<and> orientation p' = Val ''reverse (RC)''))
          \<and> (\<not> occursIn g (seq p) \<and> \<not> occursIn g (revcomp (seq p)) \<longrightarrow>
               start p' = Val (- 1) \<and> endPos p' = Val (- 1)
               \<and> orientation p' = Val ''not found'')"
proof -
  define g where "g = toUpperCase gene"
  define p where "p = primers ! k"
  define p' where "p' = fst (attachPrimerPositions gene primers) ! k"
  have p': "p' = attachPrimer g p"
    using assms(1) by (simp add: p'_def p_def g_def fst_attachPrimerPositions)
  note eq = attachPrimer_simple [OF assms(2,3) [folded p_def], of g, folded p']
  have fwd: "\<exists>i. firstOccurrence g (seq p) i \<and> start p' = Val (int i)
        \<and> endPos p' = Val (int i + int (length (seq p))) \<and> orientation p' = Val ''forward''"
    if "occursIn g (seq p)"
  proof -
    from that obtain i where i: "firstOccurrence g (seq p) i" "indexOf g (seq p) = int i"
      using indexOf_first by blast
    then show ?thesis
      by (intro exI [of _ i]) (simp add: eq scanHairpins_fields)
  qed
  have rev: "\<exists>i. firstOccurrence g (revcomp (seq p)) i \<and> start p' = Val (int i)
        \<and> endPos p' = Val (int i + int (length (seq p)))
        \<and> orientation p' = Val ''reverse (RC)''"
    if "\<not> occursIn g (seq p)" "occursIn g (revcomp (seq p))"
  proof -
    from that(2) obtain i where i: "firstOccurrence g (revcomp (seq p)) i"
      "indexOf g (revcomp (seq p)) = int i"
      using indexOf_first by blast
    moreover from that(1) have "indexOf g (seq p) = - 1" by (simp add: indexOf_none)
    ultimately show ?thesis
      by (intro exI [of _ i]) (simp add: eq scanHairpins_fields)
  qed
  have none: "start p' = Val (- 1) \<and> endPos p' = Val (- 1) \<and> orientation p' = Val ''not found''"
    if "\<not> occursIn g (seq p)" "\<not> occursIn g (revcomp (seq p))"
    using that by (simp add: eq scanHairpins_fields indexOf_none)
  from fwd rev none show ?thesis
    unfolding Let_def g_def [symmetric] p_def [symmetric] p'_def [symmetric] by blast
qed

lemma binding_example:
  "map (\<lambda>p. (start p, endPos p, orientation p))
     (fst (attachPrimerPositions ''ttttacgtacgggg''
        [parsedPrimer ''F3'' ''CGTA'', parsedPrimer ''B3'' ''CCCCGT'',
         parsedPrimer ''LF'' ''AAAAA'']))
   = [(Val 5, Val 9, Val ''forward''), (Val 8, Val 14, Val ''reverse (RC)''),
      (Val (- 1), Val (- 1), Val ''not found'')]"
  by code_simp

theorem binding_location_witness:
  "0 < length [parsedPrimer ''F3'' ''CGTA'', parsedPrimer ''B3'' ''CCCCGT'',
               parsedPrimer ''LF'' ''AAAAA'']
   \<and> toUpperCase ''F3'' \<noteq> ''FIP'' \<and> toUpperCase ''F3'' \<noteq> ''BIP''
   \<and> occursIn (toUpperCase ''ttttacgtacgggg'') ''CGTA''
   \<and> occursIn (toUpperCase ''ttttacgtacgggg'') (revcomp ''CGTA'')
   \<and> firstOccurrence (toUpperCase ''ttttacgtacgggg'') ''CGTA'' 5
   \<and> \<not> occursIn (toUpperCase ''ttttacgtacgggg'') ''CCCCGT''
   \<and> occursIn (toUpperCase ''ttttacgtacgggg'') (revcomp ''CCCCGT'')
   \<and> firstOccurrence (toUpperCase ''ttttacgtacgggg'') (revcomp ''CCCCGT'') 8
   \<and> \<not> occursIn (toUpperCase ''ttttacgtacgggg'') ''AAAAA''
   \<and> \<not> occursIn (toUpperCase ''ttttacgtacgggg'') (revcomp ''AAAAA'')
   \<and> map (\<lambda>p. (start p, endPos p, orientation p))
        (fst (attachPrimerPositions ''ttttacgtacgggg''
           [parsedPrimer ''F3'' ''CGTA'', parsedPrimer ''B3'' ''CCCCGT'',
            parsedPrimer ''LF'' ''AAAAA'']))
      = [(Val 5, Val 9, Val ''forward''), (Val 8, Val 14, Val ''reverse (RC)''),
         (Val (- 1), Val (- 1), Val ''not found'')]"
proof -
  let ?ps = "[parsedPrimer ''F3'' ''CGTA'', parsedPrimer ''B3'' ''CCCCGT'',
               parsedPrimer ''LF'' ''AAAAA'']"
  let ?g = "''ttttacgtacgggg''"
  let ?out = "fst (attachPrimerPositions ?g ?ps)"
  have nth: "?ps ! 0 = parsedPrimer ''F3'' ''CGTA''" "?ps ! 1 = parsedPrimer ''B3'' ''CCCCGT''"
    "?ps ! 2 = parsedPrimer ''LF'' ''AAAAA''" by simp_all
  have nm: "toUpperCase ''F3'' \<noteq> ''FIP''" "toUpperCase ''F3'' \<noteq> ''BIP''"
    "toUpperCase ''B3'' \<noteq> ''FIP''" "toUpperCase ''B3'' \<noteq> ''BIP''"
    "toUpperCase ''LF'' \<noteq> ''FIP''" "toUpperCase ''LF'' \<noteq> ''BIP''" by code_simp+
  have len: "0 < length ?ps" "1 < length ?ps" "2 < length ?ps" by simp_all
  have f0: "occursIn (toUpperCase ?g) ''CGTA''"
    and r0: "occursIn (toUpperCase ?g) (revcomp ''CGTA'')"
    and r1: "occursIn (toUpperCase ?g) (revcomp ''CCCCGT'')" by code_simp+
  have "indexOf (toUpperCase ?g) ''CCCCGT'' = - 1" "indexOf (toUpperCase ?g) ''AAAAA'' = - 1"
    "indexOf (toUpperCase ?g) (revcomp ''AAAAA'') = - 1" by code_simp+
  then have f1: "\<not> occursIn (toUpperCase ?g) ''CCCCGT''"
    and f2: "\<not> occursIn (toUpperCase ?g) ''AAAAA''"
    and r2: "\<not> occursIn (toUpperCase ?g) (revcomp ''AAAAA'')"
    by (simp_all add: indexOf_none)
  have out: "start (?out ! 0) = Val 5" "start (?out ! 1) = Val 8"
    by code_simp+
  from binding_location [OF len(1), of ?g] f0 nm
  obtain i where i: "firstOccurrence (toUpperCase ?g) ''CGTA'' i"
    "start (?out ! 0) = Val (int i)"
    unfolding Let_def nth by (auto simp: parsedPrimer_def)
  from i(2) out(1) have i5: "i = 5" by simp
  from binding_location [OF len(2), of ?g] f1 r1 nm
  obtain j where j: "firstOccurrence (toUpperCase ?g) (revcomp ''CCCCGT'') j"
    "start (?out ! 1) = Val (int j)"
    unfolding Let_def nth by (auto simp: parsedPrimer_def)
  from j(2) out(2) have j8: "j = 8" by simp
  from binding_location [OF len(3), of ?g] f2 r2 nm
  have "orientation (?out ! 2) = Val ''not found''"
    unfolding Let_def nth by (auto simp: parsedPrimer_def)
  with i(1) j(1) f0 r0 f1 r1 f2 r2 nm len binding_example show ?thesis
    unfolding i5 j8 by simp
qed


text \<open>
  C8. When a composite primer (FIP or BIP) fails to split, \<open>attachPrimerPositions\<close>
  returns normally and marks the primer unbound: the orientation is \<open>not split\<close> and
  \<open>start = end = -1\<close>. Hairpin scanning is skipped: \<open>hairpin3\<close>, \<open>hairpin5\<close> and
  \<open>hasHairpin\<close> keep the value they had, so on a primer on which they were never
  assigned they stay absent and are not set to \<open>null\<close>.
\<close>

theorem split_failure_unbound:
  assumes "k < length primers"
    and "toUpperCase (name (primers ! k)) = ''FIP'' \<or> toUpperCase (name (primers ! k)) = ''BIP''"
    and "\<not> found (splitInnerPrimer (seq (primers ! k)) (toUpperCase gene)
                 (toUpperCase (name (primers ! k)) = ''FIP''))"
  shows "let p = primers ! k; p' = fst (attachPrimerPositions gene primers) ! k
         in orientation p' = Val ''not split'' \<and> start p' = Val (- 1) \<and> endPos p' = Val (- 1)
          \<and> isInner p' = Val True
          \<and> hairpin3 p' = hairpin3 p \<and> hairpin5 p' = hairpin5 p
          \<and> hasHairpin p' = hasHairpin p
          \<and> name p' = name p \<and> seq p' = seq p"
proof -
  have "fst (attachPrimerPositions gene primers) ! k
      = attachPrimer (toUpperCase gene) (primers ! k)"
    using assms(1) by (simp add: fst_attachPrimerPositions)
  moreover have "attachPrimer (toUpperCase gene) (primers ! k)
      = (primers ! k)\<lparr>isInner := Val True, orientation := Val ''not split'',
           start := Val (- 1), endPos := Val (- 1)\<rparr>"
    using assms(2,3) by (auto simp: attachPrimer_def Let_def found_def)
  ultimately show ?thesis by (simp add: Let_def)
qed

lemma unsplit_example:
  "splitInnerPrimer ''AAAAAAAAAAAAAAAAAAAAAAAAAAAAAA'' (toUpperCase ''acgtacgt'') True = None"
  by code_simp

theorem split_failure_unbound_witness:
  "0 < length [parsedPrimer ''fip'' ''AAAAAAAAAAAAAAAAAAAAAAAAAAAAAA'']
   \<and> toUpperCase (name ([parsedPrimer ''fip'' ''AAAAAAAAAAAAAAAAAAAAAAAAAAAAAA''] ! 0)) = ''FIP''
   \<and> \<not> found (splitInnerPrimer ''AAAAAAAAAAAAAAAAAAAAAAAAAAAAAA'' (toUpperCase ''acgtacgt'')
               True)
   \<and> orientation (fst (attachPrimerPositions ''acgtacgt''
          [parsedPrimer ''fip'' ''AAAAAAAAAAAAAAAAAAAAAAAAAAAAAA'']) ! 0) = Val ''not split''
   \<and> start (fst (attachPrimerPositions ''acgtacgt''
          [parsedPrimer ''fip'' ''AAAAAAAAAAAAAAAAAAAAAAAAAAAAAA'']) ! 0) = Val (- 1)
   \<and> endPos (fst (attachPrimerPositions ''acgtacgt''
          [parsedPrimer ''fip'' ''AAAAAAAAAAAAAAAAAAAAAAAAAAAAAA'']) ! 0) = Val (- 1)
   \<and> hairpin3 (fst (attachPrimerPositions ''acgtacgt''
          [parsedPrimer ''fip'' ''AAAAAAAAAAAAAAAAAAAAAAAAAAAAAA'']) ! 0) = Undefined
   \<and> hairpin5 (fst (attachPrimerPositions ''acgtacgt''
          [parsedPrimer ''fip'' ''AAAAAAAAAAAAAAAAAAAAAAAAAAAAAA'']) ! 0) = Undefined
   \<and> hasHairpin (fst (attachPrimerPositions ''acgtacgt''
          [parsedPrimer ''fip'' ''AAAAAAAAAAAAAAAAAAAAAAAAAAAAAA'']) ! 0) = Undefined"
proof -
  let ?ps = "[parsedPrimer ''fip'' ''AAAAAAAAAAAAAAAAAAAAAAAAAAAAAA'']"
  have h1: "0 < length ?ps" by simp
  have nm: "toUpperCase (name (?ps ! 0)) = ''FIP''" by code_simp
  then have h2: "toUpperCase (name (?ps ! 0)) = ''FIP'' \<or> toUpperCase (name (?ps ! 0)) = ''BIP''"
    by simp
  have h3: "\<not> found (splitInnerPrimer (seq (?ps ! 0)) (toUpperCase ''acgtacgt'')
               (toUpperCase (name (?ps ! 0)) = ''FIP''))"
    unfolding nm by (simp add: parsedPrimer_def found_def unsplit_example)
  have h3': "\<not> found (splitInnerPrimer ''AAAAAAAAAAAAAAAAAAAAAAAAAAAAAA''
               (toUpperCase ''acgtacgt'') True)"
    by (simp add: found_def unsplit_example)
  note th = split_failure_unbound [OF h1 h2 h3, unfolded Let_def]
  have u: "hairpin3 (?ps ! 0) = Undefined" "hairpin5 (?ps ! 0) = Undefined"
    "hasHairpin (?ps ! 0) = Undefined" by (simp_all add: parsedPrimer_def)
  from th have "orientation (fst (attachPrimerPositions ''acgtacgt'' ?ps) ! 0) = Val ''not split''"
    "start (fst (attachPrimerPositions ''acgtacgt'' ?ps) ! 0) = Val (- 1)"
    "endPos (fst (attachPrimerPositions ''acgtacgt'' ?ps) ! 0) = Val (- 1)"
    "hairpin3 (fst (attachPrimerPositions ''acgtacgt'' ?ps) ! 0) = hairpin3 (?ps ! 0)"
    "hairpin5 (fst (attachPrimerPositions ''acgtacgt'' ?ps) ! 0) = hairpin5 (?ps ! 0)"
    "hasHairpin (fst (attachPrimerPositions ''acgtacgt'' ?ps) ! 0) = hasHairpin (?ps ! 0)"
    by blast+
  with h1 nm h3' u show ?thesis by (intro conjI) simp_all
qed


lemma attachPrimer_name_seq:
  "name (attachPrimer g p) = name p" "seq (attachPrimer g p) = seq p"
  by (simp_all add: attachPrimer_def Let_def scanHairpins_fields split: option.splits)

lemma attachPrimer_composite_found:
  assumes "toUpperCase (name p) = ''FIP'' \<or> toUpperCase (name p) = ''BIP''"
    and "splitInnerPrimer (seq p) g (toUpperCase (name p) = ''FIP'') = Some split"
  shows "attachPrimer g p = scanHairpins (p\<lparr>isInner := Val True,
           pLeft := Val (left split), pRight := Val (right split),
           pLeftType := Val (leftType split), pRightType := Val (rightType split),
           pLeftStart := Val (leftStart split), pLeftEnd := Val (leftEnd split),
           pRightStart := Val (rightStart split), pRightEnd := Val (rightEnd split)\<rparr>)"
  using assms by (simp add: attachPrimer_def Let_def)

lemma attachPrimer_composite_not_found:
  assumes "toUpperCase (name p) = ''FIP'' \<or> toUpperCase (name p) = ''BIP''"
    and "splitInnerPrimer (seq p) g (toUpperCase (name p) = ''FIP'') = None"
  shows "attachPrimer g p = p\<lparr>isInner := Val True, orientation := Val ''not split'',
           start := Val (- 1), endPos := Val (- 1)\<rparr>"
  using assms by (simp add: attachPrimer_def Let_def)

lemma attachPrimer_idem: "attachPrimer g (attachPrimer g p) = attachPrimer g p"
proof -
  define q where "q = attachPrimer g p"
  have nq: "name q = name p" and sq: "seq q = seq p"
    by (simp_all add: q_def attachPrimer_name_seq)
  show ?thesis
  proof (cases "toUpperCase (name p) = ''FIP'' \<or> toUpperCase (name p) = ''BIP''")
    case True
    then have Tq: "toUpperCase (name q) = ''FIP'' \<or> toUpperCase (name q) = ''BIP''"
      by (simp add: nq)
    show ?thesis
    proof (cases "splitInnerPrimer (seq p) g (toUpperCase (name p) = ''FIP'')")
      case None
      then have Nq: "splitInnerPrimer (seq q) g (toUpperCase (name q) = ''FIP'') = None"
        by (simp add: nq sq)
      show ?thesis
        unfolding q_def [symmetric] attachPrimer_composite_not_found [OF Tq Nq]
        unfolding q_def attachPrimer_composite_not_found [OF True None]
        by simp
    next
      case (Some split)
      then have Sq: "splitInnerPrimer (seq q) g (toUpperCase (name q) = ''FIP'') = Some split"
        by (simp add: nq sq)
      show ?thesis
        unfolding q_def [symmetric] attachPrimer_composite_found [OF Tq Sq]
        unfolding q_def attachPrimer_composite_found [OF True Some]
        by (simp add: scanHairpins_def Let_def)
    qed
  next
    case False
    then have F: "toUpperCase (name p) \<noteq> ''FIP''" "toUpperCase (name p) \<noteq> ''BIP''"
      by simp_all
    then have Fq: "toUpperCase (name q) \<noteq> ''FIP''" "toUpperCase (name q) \<noteq> ''BIP''"
      by (simp_all add: nq)
    show ?thesis
      unfolding q_def [symmetric] attachPrimer_simple [OF Fq] sq
      unfolding q_def attachPrimer_simple [OF F]
      by (simp add: scanHairpins_def Let_def)
  qed
qed

text \<open>
  C9. The analysis is idempotent: running \<open>attachPrimerPositions\<close> a second time on
  the same gene and on the primers as the first run left them gives every primer the
  same field values and returns the same list of dimer records.
\<close>

theorem attachPrimerPositions_idempotent:
  "attachPrimerPositions gene (fst (attachPrimerPositions gene primers))
   = attachPrimerPositions gene primers"
  by (simp add: attachPrimerPositions_def Let_def attachPrimer_idem comp_def)

theorem attachPrimerPositions_idempotent_witness:
  "attachPrimerPositions ''ttttacgtacgggg''
     (fst (attachPrimerPositions ''ttttacgtacgggg''
        [parsedPrimer ''F3'' ''ACGTAC'', parsedPrimer ''B3'' ''GTACGT'']))
   = attachPrimerPositions ''ttttacgtacgggg''
        [parsedPrimer ''F3'' ''ACGTAC'', parsedPrimer ''B3'' ''GTACGT'']
   \<and> snd (attachPrimerPositions ''ttttacgtacgggg''
        [parsedPrimer ''F3'' ''ACGTAC'', parsedPrimer ''B3'' ''GTACGT''])
     = [\<lparr>primer1 = ''F3'', primer2 = ''B3'', primer1_3prime = ''ACGTAC'',
          primer1_3prime_rc = ''GTACGT'', bindingPos = 0, matchLength = 6,
          direction = ''p1_to_p2''\<rparr>,
        \<lparr>primer1 = ''B3'', primer2 = ''F3'', primer1_3prime = ''GTACGT'',
          primer1_3prime_rc = ''ACGTAC'', bindingPos = 0, matchLength = 6,
          direction = ''p2_to_p1''\<rparr>]"
proof -
  have "snd (attachPrimerPositions ''ttttacgtacgggg''
        [parsedPrimer ''F3'' ''ACGTAC'', parsedPrimer ''B3'' ''GTACGT''])
     = [\<lparr>primer1 = ''F3'', primer2 = ''B3'', primer1_3prime = ''ACGTAC'',
          primer1_3prime_rc = ''GTACGT'', bindingPos = 0, matchLength = 6,
          direction = ''p1_to_p2''\<rparr>,
        \<lparr>primer1 = ''B3'', primer2 = ''F3'', primer1_3prime = ''GTACGT'',
          primer1_3prime_rc = ''ACGTAC'', bindingPos = 0, matchLength = 6,
          direction = ''p2_to_p1''\<rparr>]"
    by code_simp
  with attachPrimerPositions_idempotent [of "''ttttacgtacgggg''"
      "[parsedPrimer ''F3'' ''ACGTAC'', parsedPrimer ''B3'' ''GTACGT'']"]
  show ?thesis by simp
qed


section \<open>Properties of the dimer check\<close>

lemma slice1_trailing:
  "0 < m \<Longrightarrow> m \<le> int (length a) \<Longrightarrow> slice1 a (- m) = trailing (nat m) a"
  by (simp add: slice1_def slice2_def sliceIndex_def Let_def trailing_def max_def
      nat_diff_distrib')

lemma dimerLoop_result:
  assumes "1 \<le> minMatch"
  shows "\<exists>rs. dimerLoop nameA a nameB b dir minMatch ds hi = ds @ rs
    \<and> ((rs = [] \<and> (\<forall>m \<in> {minMatch..hi}. \<not> dimerMatch a b m))
      \<or> (\<exists>m \<in> {minMatch..hi}. \<exists>i \<in> {..length b}.
            dimerMatch a b m \<and> (\<forall>m' \<in> {m<..hi}. \<not> dimerMatch a b m')
            \<and> firstOccurrence b (revcomp (trailing (nat m) a)) i
            \<and> rs = [\<lparr>primer1 = nameA, primer2 = nameB,
                      primer1_3prime = trailing (nat m) a,
                      primer1_3prime_rc = revcomp (trailing (nat m) a),
                      bindingPos = int i, matchLength = m, direction = dir\<rparr>]))"
  using assms
proof (induction nameA a nameB b dir minMatch ds hi rule: dimerLoop.induct)
  case (1 nameA a nameB b dir minMatch ds hi)
  show ?case
  proof (cases "hi \<ge> minMatch")
    case False
    then have "dimerLoop nameA a nameB b dir minMatch ds hi = ds"
      by (subst dimerLoop.simps) simp
    with False show ?thesis by auto
  next
    case True
    with "1.prems" have tpos: "0 < hi" by simp
    show ?thesis
    proof (cases "dimerMatch a b hi")
      case yes: True
      then have le: "hi \<le> int (length a)"
        and occ: "occursIn b (revcomp (trailing (nat hi) a))"
        by (simp_all add: dimerMatch_def)
      from occ obtain i where i: "firstOccurrence b (revcomp (trailing (nat hi) a)) i"
        "indexOf b (revcomp (trailing (nat hi) a)) = int i"
        using indexOf_first by blast
      have ib: "i \<le> length b" using i(1) by (simp add: firstOccurrence_def occursAt_def)
      have "dimerLoop nameA a nameB b dir minMatch ds hi
          = ds @ [\<lparr>primer1 = nameA, primer2 = nameB,
                      primer1_3prime = trailing (nat hi) a,
                      primer1_3prime_rc = revcomp (trailing (nat hi) a),
                      bindingPos = int i, matchLength = hi, direction = dir\<rparr>]"
        using True le i(2) tpos by (subst dimerLoop.simps) (simp add: slice1_trailing)
      moreover have "hi \<in> {minMatch..hi}" using True by simp
      moreover have "\<forall>m' \<in> {hi<..hi}. \<not> dimerMatch a b m'" by simp
      ultimately show ?thesis using yes i(1) ib by (intro exI conjI disjI2 bexI) auto
    next
      case no: False
      then have cond: "\<not> (int (length a) \<ge> hi
          \<and> indexOf b (revcomp (slice1 a (- hi))) \<noteq> - 1)"
        using tpos by (auto simp: dimerMatch_def indexOf_none slice1_trailing)
      have step: "dimerLoop nameA a nameB b dir minMatch ds hi
          = dimerLoop nameA a nameB b dir minMatch ds (hi - 1)"
        by (subst dimerLoop.simps) (simp only: cond True if_True if_False)
      have ext: "{minMatch..hi} = insert hi {minMatch..hi - 1}" using True by auto
      from "1.IH" [OF True cond "1.prems"] obtain rs where
        rs: "dimerLoop nameA a nameB b dir minMatch ds (hi - 1) = ds @ rs"
        and alt: "(rs = [] \<and> (\<forall>m \<in> {minMatch..hi - 1}. \<not> dimerMatch a b m))
      \<or> (\<exists>m \<in> {minMatch..hi - 1}. \<exists>i \<in> {..length b}.
            dimerMatch a b m \<and> (\<forall>m' \<in> {m<..hi - 1}. \<not> dimerMatch a b m')
            \<and> firstOccurrence b (revcomp (trailing (nat m) a)) i
            \<and> rs = [\<lparr>primer1 = nameA, primer2 = nameB,
                      primer1_3prime = trailing (nat m) a,
                      primer1_3prime_rc = revcomp (trailing (nat m) a),
                      bindingPos = int i, matchLength = m, direction = dir\<rparr>])"
        by blast
      from alt show ?thesis
      proof
        assume "rs = [] \<and> (\<forall>m \<in> {minMatch..hi - 1}. \<not> dimerMatch a b m)"
        with no rs step show ?thesis unfolding ext by auto
      next
        assume "\<exists>m \<in> {minMatch..hi - 1}. \<exists>i \<in> {..length b}.
            dimerMatch a b m \<and> (\<forall>m' \<in> {m<..hi - 1}. \<not> dimerMatch a b m')
            \<and> firstOccurrence b (revcomp (trailing (nat m) a)) i
            \<and> rs = [\<lparr>primer1 = nameA, primer2 = nameB,
                      primer1_3prime = trailing (nat m) a,
                      primer1_3prime_rc = revcomp (trailing (nat m) a),
                      bindingPos = int i, matchLength = m, direction = dir\<rparr>]"
        then obtain m i where m: "m \<in> {minMatch..hi - 1}" "i \<in> {..length b}"
          "dimerMatch a b m" "\<forall>m' \<in> {m<..hi - 1}. \<not> dimerMatch a b m'"
          "firstOccurrence b (revcomp (trailing (nat m) a)) i"
          "rs = [\<lparr>primer1 = nameA, primer2 = nameB,
                      primer1_3prime = trailing (nat m) a,
                      primer1_3prime_rc = revcomp (trailing (nat m) a),
                      bindingPos = int i, matchLength = m, direction = dir\<rparr>]"
          by blast
        have "\<forall>m' \<in> {m<..hi}. \<not> dimerMatch a b m'"
        proof
          fix m' assume "m' \<in> {m<..hi}"
          then have "m' = hi \<or> m' \<in> {m<..hi - 1}" by auto
          with no m(4) show "\<not> dimerMatch a b m'" by blast
        qed
        moreover have "m \<in> {minMatch..hi}" using m(1) by auto
        ultimately show ?thesis using m rs step
          by (intro exI [of _ rs] conjI disjI2 bexI [of _ m] bexI [of _ i]) simp_all
      qed
    qed
  qed
qed

text \<open>
  C5. In \<open>checkDimer\<close>, for \<open>minMatch \<ge> 1\<close>, the result is the records of the direction
  \<open>p1_to_p2\<close> followed by the records of the direction \<open>p2_to_p1\<close>, and each direction
  is as \<open>directionRecords\<close> says: it yields a record if and only if some length between
  \<open>minMatch\<close> and 8 matches (the primer has that many symbols, and the reverse
  complement of its terminal symbols occurs in the other primer); the record carries the
  largest matching length and the index of the first occurrence. So each direction
  yields at most one record and \<open>checkDimer\<close> returns 0, 1 or 2 records.
\<close>

theorem checkDimer_directions:
  assumes "1 \<le> minMatch"
  shows "\<exists>ra rb. checkDimer p1Name p1Seq p2Name p2Seq minMatch = ra @ rb
    \<and> directionRecords p1Name (toUpperCase p1Seq) p2Name (toUpperCase p2Seq)
         ''p1_to_p2'' minMatch ra
    \<and> directionRecords p2Name (toUpperCase p2Seq) p1Name (toUpperCase p1Seq)
         ''p2_to_p1'' minMatch rb
    \<and> length ra \<le> 1 \<and> length rb \<le> 1
    \<and> length (checkDimer p1Name p1Seq p2Name p2Seq minMatch) \<le> 2"
proof -
  define A where "A = toUpperCase p1Seq"
  define B where "B = toUpperCase p2Seq"
  from dimerLoop_result [OF assms, of p1Name A p2Name B "''p1_to_p2''" "[]" 8]
  obtain ra where ra: "dimerLoop p1Name A p2Name B ''p1_to_p2'' minMatch [] 8 = ra"
    and sa: "directionRecords p1Name A p2Name B ''p1_to_p2'' minMatch ra"
    unfolding directionRecords_def by auto
  from dimerLoop_result [OF assms, of p2Name B p1Name A "''p2_to_p1''" ra 8]
  obtain rb where rb: "dimerLoop p2Name B p1Name A ''p2_to_p1'' minMatch ra 8 = ra @ rb"
    and sb: "directionRecords p2Name B p1Name A ''p2_to_p1'' minMatch rb"
    unfolding directionRecords_def by auto
  have eq: "checkDimer p1Name p1Seq p2Name p2Seq minMatch = ra @ rb"
    by (simp add: checkDimer_def Let_def A_def [symmetric] B_def [symmetric] ra rb)
  have la: "length ra \<le> 1" using sa by (auto simp: directionRecords_def)
  have lb: "length rb \<le> 1" using sb by (auto simp: directionRecords_def)
  show ?thesis
    using eq sa sb la lb unfolding A_def B_def
    by (intro exI [of _ ra] exI [of _ rb]) simp
qed

lemma dimer_example:
  "checkDimer ''P1'' ''GGGGACGTAC'' ''P2'' ''AAGTACGTAA'' 3
   = [\<lparr>primer1 = ''P1'', primer2 = ''P2'', primer1_3prime = ''ACGTAC'',
       primer1_3prime_rc = ''GTACGT'', bindingPos = 2, matchLength = 6,
       direction = ''p1_to_p2''\<rparr>]"
  by code_simp

theorem checkDimer_directions_witness:
  "(1::int) \<le> 3
   \<and> checkDimer ''P1'' ''GGGGACGTAC'' ''P2'' ''AAGTACGTAA'' 3
     = [\<lparr>primer1 = ''P1'', primer2 = ''P2'', primer1_3prime = ''ACGTAC'',
         primer1_3prime_rc = ''GTACGT'', bindingPos = 2, matchLength = 6,
         direction = ''p1_to_p2''\<rparr>] @ []
   \<and> directionRecords ''P1'' (toUpperCase ''GGGGACGTAC'') ''P2'' (toUpperCase ''AAGTACGTAA'')
       ''p1_to_p2'' 3
       [\<lparr>primer1 = ''P1'', primer2 = ''P2'', primer1_3prime = ''ACGTAC'',
         primer1_3prime_rc = ''GTACGT'', bindingPos = 2, matchLength = 6,
         direction = ''p1_to_p2''\<rparr>]
   \<and> directionRecords ''P2'' (toUpperCase ''AAGTACGTAA'') ''P1'' (toUpperCase ''GGGGACGTAC'')
       ''p2_to_p1'' 3 []
   \<and> length (checkDimer ''P1'' ''GGGGACGTAC'' ''P2'' ''AAGTACGTAA'' 3) \<le> 2"
proof -
  let ?R = "\<lparr>primer1 = ''P1'', primer2 = ''P2'', primer1_3prime = ''ACGTAC'',
         primer1_3prime_rc = ''GTACGT'', bindingPos = 2, matchLength = 6,
         direction = ''p1_to_p2''\<rparr>"
  have m: "(1::int) \<le> 3" by simp
  from checkDimer_directions [OF m, of "''P1''" "''GGGGACGTAC''" "''P2''" "''AAGTACGTAA''"]
  obtain ra rb where eq: "checkDimer ''P1'' ''GGGGACGTAC'' ''P2'' ''AAGTACGTAA'' 3 = ra @ rb"
    and da: "directionRecords ''P1'' (toUpperCase ''GGGGACGTAC'') ''P2''
               (toUpperCase ''AAGTACGTAA'') ''p1_to_p2'' 3 ra"
    and db: "directionRecords ''P2'' (toUpperCase ''AAGTACGTAA'') ''P1''
               (toUpperCase ''GGGGACGTAC'') ''p2_to_p1'' 3 rb"
    and len: "length (checkDimer ''P1'' ''GGGGACGTAC'' ''P2'' ''AAGTACGTAA'' 3) \<le> 2"
    by blast
  from eq have "ra @ rb = [?R]" by (simp add: dimer_example)
  then have "(ra = [?R] \<and> rb = []) \<or> (ra = [] \<and> rb = [?R])"
    by (auto simp: append_eq_Cons_conv)
  moreover have "rb \<noteq> [?R]" using db by (auto simp: directionRecords_def)
  ultimately have "ra = [?R]" "rb = []" by auto
  with da db len m dimer_example show ?thesis by simp
qed


section \<open>Properties of the split\<close>

lemma candidate_slices:
  assumes "candidate s k"
  shows "slice2 s 0 (int (length s) - int k) = leading k s"
    and "slice1 s (int (length s) - int k) = trailing k s"
  using assms
  by (simp_all add: candidate_def slice1_def slice2_def sliceIndex_def Let_def leading_def
      trailing_def nat_diff_distrib' min_def)

lemma length_leading_trailing:
  assumes "candidate s k"
  shows "length (trailing k s) = k" and "length (leading k s) = length s - k"
    and "leading k s @ trailing k s = s"
  using assms by (simp_all add: candidate_def leading_def trailing_def)

lemma trySplit_candidate:
  assumes "candidate s k"
  shows "trySplit s gene isFIP (int k) =
     (if forwardRight s gene k then
        Some \<lparr>left = leading k s, right = trailing k s,
              leftType = (if isFIP then ''F1c'' else ''B1c''),
              rightType = (if isFIP then ''F2'' else ''B2''),
              leftStart = indexOf gene (revcomp (leading k s)),
              leftEnd = indexOf gene (revcomp (leading k s)) + int (length (leading k s)),
              rightStart = indexOf gene (trailing k s),
              rightEnd = indexOf gene (trailing k s) + int (length (trailing k s))\<rparr>
      else if swappedBinding s gene k then
        Some \<lparr>left = trailing k s, right = leading k s,
              leftType = (if isFIP then ''F1c'' else ''B1c''),
              rightType = (if isFIP then ''F2'' else ''B2''),
              leftStart = indexOf gene (revcomp (trailing k s)),
              leftEnd = indexOf gene (revcomp (trailing k s)) + int (length (trailing k s)),
              rightStart = indexOf gene (leading k s),
              rightEnd = indexOf gene (leading k s) + int (length (leading k s))\<rparr>
      else None)"
  unfolding trySplit_def candidate_slices [OF assms] Let_def
  by (simp add: forwardRight_def swappedBinding_def indexOf_none)

lemma trySplit_None_iff:
  "candidate s k \<Longrightarrow> trySplit s gene isFIP (int k) = None \<longleftrightarrow> \<not> validSplit s gene k"
  by (simp add: trySplit_candidate validSplit_def)

lemma splitLoop_result:
  "(splitLoop s gene isFIP (int k0) = None
      \<and> (\<forall>k. k0 \<le> k \<and> k \<le> 35 \<and> k + 10 < length s
             \<longrightarrow> trySplit s gene isFIP (int k) = None))
   \<or> (\<exists>k. k0 \<le> k \<and> k \<le> 35 \<and> k + 10 < length s
         \<and> splitLoop s gene isFIP (int k0) = trySplit s gene isFIP (int k)
         \<and> trySplit s gene isFIP (int k) \<noteq> None
         \<and> (\<forall>j. k0 \<le> j \<and> j < k \<longrightarrow> trySplit s gene isFIP (int j) = None))"
proof (induction "36 - k0" arbitrary: k0 rule: less_induct)
  case less
  show ?case
  proof (cases "k0 \<le> 35 \<and> k0 + 10 < length s")
    case False
    then have "splitLoop s gene isFIP (int k0) = None"
      by (subst splitLoop.simps) auto
    with False show ?thesis by auto
  next
    case True
    then have c: "int k0 \<le> 35 \<and> int k0 < int (length s) - 10" by auto
    show ?thesis
    proof (cases "trySplit s gene isFIP (int k0)")
      case (Some r)
      then have "splitLoop s gene isFIP (int k0) = trySplit s gene isFIP (int k0)"
        using c by (subst splitLoop.simps) simp
      with True Some show ?thesis
        by (intro disjI2 exI [of _ k0]) auto
    next
      case None
      then have step: "splitLoop s gene isFIP (int k0) = splitLoop s gene isFIP (int (Suc k0))"
        using c by (subst splitLoop.simps) (simp add: add.commute)
      have "36 - Suc k0 < 36 - k0" using True by arith
      from less [OF this] show ?thesis
      proof
        assume a: "splitLoop s gene isFIP (int (Suc k0)) = None
          \<and> (\<forall>k. Suc k0 \<le> k \<and> k \<le> 35 \<and> k + 10 < length s
                \<longrightarrow> trySplit s gene isFIP (int k) = None)"
        have "trySplit s gene isFIP (int k) = None"
          if "k0 \<le> k" "k \<le> 35" "k + 10 < length s" for k
        proof (cases "k = k0")
          case True with None show ?thesis by simp
        next
          case False with that a show ?thesis by simp
        qed
        with a step show ?thesis by simp
      next
        assume "\<exists>k. Suc k0 \<le> k \<and> k \<le> 35 \<and> k + 10 < length s
         \<and> splitLoop s gene isFIP (int (Suc k0)) = trySplit s gene isFIP (int k)
         \<and> trySplit s gene isFIP (int k) \<noteq> None
         \<and> (\<forall>j. Suc k0 \<le> j \<and> j < k \<longrightarrow> trySplit s gene isFIP (int j) = None)"
        then obtain k where k: "Suc k0 \<le> k" "k \<le> 35" "k + 10 < length s"
          "splitLoop s gene isFIP (int (Suc k0)) = trySplit s gene isFIP (int k)"
          "trySplit s gene isFIP (int k) \<noteq> None"
          "\<forall>j. Suc k0 \<le> j \<and> j < k \<longrightarrow> trySplit s gene isFIP (int j) = None"
          by blast
        have "trySplit s gene isFIP (int j) = None" if "k0 \<le> j" "j < k" for j
        proof (cases "j = k0")
          case True with None show ?thesis by simp
        next
          case False with that k(6) show ?thesis by simp
        qed
        with k step show ?thesis
          by (intro disjI2 exI [of _ k]) simp
      qed
    qed
  qed
qed

lemma splitInnerPrimer_None:
  assumes "splitInnerPrimer innerPrimer gene isFIP = None"
  shows "\<not> validSplit (toUpperCase innerPrimer) gene k"
proof
  define s where "s = toUpperCase innerPrimer"
  assume "validSplit (toUpperCase innerPrimer) gene k"
  then have v: "validSplit s gene k" and c: "candidate s k"
    by (simp_all add: s_def validSplit_def)
  from assms have "splitLoop s gene isFIP (int 15) = None"
    by (simp add: splitInnerPrimer_def s_def)
  with splitLoop_result [of s gene isFIP 15]
  have "\<forall>k. 15 \<le> k \<and> k \<le> 35 \<and> k + 10 < length s \<longrightarrow> trySplit s gene isFIP (int k) = None"
    by auto
  with c have "trySplit s gene isFIP (int k) = None" by (simp add: candidate_def)
  with c v show False by (simp add: trySplit_None_iff)
qed

lemma splitInnerPrimer_Some:
  assumes "splitInnerPrimer innerPrimer gene isFIP = Some r"
  shows "\<exists>k. chosenSplit (toUpperCase innerPrimer) gene k
     \<and> trySplit (toUpperCase innerPrimer) gene isFIP (int k) = Some r"
proof -
  define s where "s = toUpperCase innerPrimer"
  from assms have "splitLoop s gene isFIP (int 15) = Some r"
    by (simp add: splitInnerPrimer_def s_def)
  with splitLoop_result [of s gene isFIP 15]
  obtain k where k: "15 \<le> k" "k \<le> 35" "k + 10 < length s"
    "trySplit s gene isFIP (int k) = Some r"
    "\<forall>j. 15 \<le> j \<and> j < k \<longrightarrow> trySplit s gene isFIP (int j) = None"
    by auto
  have c: "candidate s k" using k by (simp add: candidate_def)
  have v: "validSplit s gene k" using k(4) trySplit_None_iff [OF c, of gene isFIP] by auto
  have "\<not> validSplit s gene j" if "j \<in> {15..<k}" for j
  proof -
    from that k have cj: "candidate s j" by (simp add: candidate_def)
    from that k(5) have "trySplit s gene isFIP (int j) = None" by simp
    with cj show ?thesis by (simp add: trySplit_None_iff)
  qed
  with v have "chosenSplit s gene k" by (simp add: chosenSplit_def)
  with k(4) show ?thesis unfolding s_def by blast
qed

text \<open>
  C2 (as amended). For every composite primer sequence and gene for which
  \<open>splitInnerPrimer\<close> returns \<open>found = true\<close>: when the forward-right hypothesis holds
  at the chosen split, \<open>left\<close> followed by \<open>right\<close> is the uppercased input; when the
  split was found under the swapped hypothesis, the two parts are returned swapped, and
  \<open>right\<close> followed by \<open>left\<close> is the uppercased input.
\<close>

theorem splitInnerPrimer_reconstructs:
  assumes "found (splitInnerPrimer innerPrimer gene isFIP)"
  shows "\<exists>r k. splitInnerPrimer innerPrimer gene isFIP = Some r
     \<and> chosenSplit (toUpperCase innerPrimer) gene k
     \<and> (if forwardRight (toUpperCase innerPrimer) gene k
         then left r @ right r = toUpperCase innerPrimer
         else right r @ left r = toUpperCase innerPrimer)"
proof -
  from assms obtain r where r: "splitInnerPrimer innerPrimer gene isFIP = Some r"
    by (auto simp: found_def)
  from splitInnerPrimer_Some [OF r] obtain k where
    ch: "chosenSplit (toUpperCase innerPrimer) gene k"
    and t: "trySplit (toUpperCase innerPrimer) gene isFIP (int k) = Some r" by blast
  from ch have c: "candidate (toUpperCase innerPrimer) k"
    by (simp add: chosenSplit_def validSplit_def)
  from t have "if forwardRight (toUpperCase innerPrimer) gene k
         then left r @ right r = toUpperCase innerPrimer
         else right r @ left r = toUpperCase innerPrimer"
    unfolding trySplit_candidate [OF c]
    using length_leading_trailing(3) [OF c] by (auto split: if_splits)
  with r ch show ?thesis by blast
qed

lemma split_swapped_example:
  "splitInnerPrimer ''GGGGGGGGGGGGTTTTTTTTTTTTTTTT'' ''GGGGGGGGGGGGTAAAAAAAAAAAAAAA'' False
   = Some \<lparr>left = ''TTTTTTTTTTTTTTT'', right = ''GGGGGGGGGGGGT'', leftType = ''B1c'',
       rightType = ''B2'', leftStart = 13, leftEnd = 28, rightStart = 0, rightEnd = 13\<rparr>"
  by code_simp

lemma upper_swapped_example:
  "toUpperCase ''GGGGGGGGGGGGTTTTTTTTTTTTTTTT'' = ''GGGGGGGGGGGGTTTTTTTTTTTTTTTT''"
  by code_simp

theorem splitInnerPrimer_reconstructs_counterexample:
  "splitInnerPrimer ''GGGGGGGGGGGGTTTTTTTTTTTTTTTT'' ''GGGGGGGGGGGGTAAAAAAAAAAAAAAA'' False
   = Some \<lparr>left = ''TTTTTTTTTTTTTTT'', right = ''GGGGGGGGGGGGT'', leftType = ''B1c'',
       rightType = ''B2'', leftStart = 13, leftEnd = 28, rightStart = 0, rightEnd = 13\<rparr>
   \<and> ''TTTTTTTTTTTTTTT'' @ ''GGGGGGGGGGGGT'' \<noteq> toUpperCase ''GGGGGGGGGGGGTTTTTTTTTTTTTTTT''"
  using split_swapped_example upper_swapped_example by simp

theorem splitInnerPrimer_reconstructs_witness:
  "found (splitInnerPrimer ''GGGGGGGGGGGGTTTTTTTTTTTTTTTT'' ''GGGGGGGGGGGGTAAAAAAAAAAAAAAA'' False)
   \<and> splitInnerPrimer ''GGGGGGGGGGGGTTTTTTTTTTTTTTTT'' ''GGGGGGGGGGGGTAAAAAAAAAAAAAAA'' False
     = Some \<lparr>left = ''TTTTTTTTTTTTTTT'', right = ''GGGGGGGGGGGGT'', leftType = ''B1c'',
         rightType = ''B2'', leftStart = 13, leftEnd = 28, rightStart = 0, rightEnd = 13\<rparr>
   \<and> \<not> forwardRight (toUpperCase ''GGGGGGGGGGGGTTTTTTTTTTTTTTTT'')
         ''GGGGGGGGGGGGTAAAAAAAAAAAAAAA'' 15
   \<and> chosenSplit (toUpperCase ''GGGGGGGGGGGGTTTTTTTTTTTTTTTT'')
         ''GGGGGGGGGGGGTAAAAAAAAAAAAAAA'' 15
   \<and> ''GGGGGGGGGGGGT'' @ ''TTTTTTTTTTTTTTT'' = toUpperCase ''GGGGGGGGGGGGTTTTTTTTTTTTTTTT''"
proof -
  have f: "found (splitInnerPrimer ''GGGGGGGGGGGGTTTTTTTTTTTTTTTT''
      ''GGGGGGGGGGGGTAAAAAAAAAAAAAAA'' False)"
    by (simp add: found_def split_swapped_example)
  have "indexOf ''GGGGGGGGGGGGTAAAAAAAAAAAAAAA''
      (trailing 15 (toUpperCase ''GGGGGGGGGGGGTTTTTTTTTTTTTTTT'')) = - 1" by code_simp
  then have nf: "\<not> forwardRight (toUpperCase ''GGGGGGGGGGGGTTTTTTTTTTTTTTTT'')
         ''GGGGGGGGGGGGTAAAAAAAAAAAAAAA'' 15"
    by (simp add: forwardRight_def indexOf_none)
  have "candidate (toUpperCase ''GGGGGGGGGGGGTTTTTTTTTTTTTTTT'') 15"
    "swappedBinding (toUpperCase ''GGGGGGGGGGGGTTTTTTTTTTTTTTTT'')
         ''GGGGGGGGGGGGTAAAAAAAAAAAAAAA'' 15" by code_simp+
  then have ch: "chosenSplit (toUpperCase ''GGGGGGGGGGGGTTTTTTTTTTTTTTTT'')
         ''GGGGGGGGGGGGTAAAAAAAAAAAAAAA'' 15"
    by (simp add: chosenSplit_def validSplit_def)
  from splitInnerPrimer_reconstructs [OF f] obtain r k where
    r: "splitInnerPrimer ''GGGGGGGGGGGGTTTTTTTTTTTTTTTT'' ''GGGGGGGGGGGGTAAAAAAAAAAAAAAA'' False
        = Some r"
    and alt: "if forwardRight (toUpperCase ''GGGGGGGGGGGGTTTTTTTTTTTTTTTT'')
         ''GGGGGGGGGGGGTAAAAAAAAAAAAAAA'' k
        then left r @ right r = toUpperCase ''GGGGGGGGGGGGTTTTTTTTTTTTTTTT''
        else right r @ left r = toUpperCase ''GGGGGGGGGGGGTTTTTTTTTTTTTTTT''"
    by blast
  from r have r': "r = \<lparr>left = ''TTTTTTTTTTTTTTT'', right = ''GGGGGGGGGGGGT'', leftType = ''B1c'',
         rightType = ''B2'', leftStart = 13, leftEnd = 28, rightStart = 0, rightEnd = 13\<rparr>"
    by (simp add: split_swapped_example)
  from alt have "''GGGGGGGGGGGGT'' @ ''TTTTTTTTTTTTTTT''
      = toUpperCase ''GGGGGGGGGGGGTTTTTTTTTTTTTTTT''"
    unfolding r' upper_swapped_example by (simp split: if_splits)
  with f nf ch split_swapped_example show ?thesis by simp
qed


text \<open>
  C3 (as amended). \<open>splitInnerPrimer\<close> enumerates the lengths \<open>k\<close> of the trailing part
  in ascending order from 15 to 35, as long as the leading part keeps more than 10
  symbols (\<open>k + 10 < length\<close>), and returns at the first \<open>k\<close> for which either hypothesis
  holds. It succeeds if and only if some such \<open>k\<close> is a valid split. When it succeeds, the
  chosen \<open>k\<close> is between 15 and 35 and no smaller candidate is a valid split; under the
  forward-right hypothesis the returned \<open>right\<close> is the trailing part, of length \<open>k\<close>;
  under the swapped hypothesis the returned \<open>left\<close> is the trailing part, of length \<open>k\<close>,
  and the returned \<open>right\<close> is the leading part.
\<close>

theorem splitInnerPrimer_smallest:
  "(found (splitInnerPrimer innerPrimer gene isFIP)
      \<longleftrightarrow> (\<exists>k \<in> {15..35}. validSplit (toUpperCase innerPrimer) gene k))
   \<and> (\<forall>r. splitInnerPrimer innerPrimer gene isFIP = Some r \<longrightarrow>
         (\<exists>k \<in> {15..35}. chosenSplit (toUpperCase innerPrimer) gene k
            \<and> 10 < length (leading k (toUpperCase innerPrimer))
            \<and> (if forwardRight (toUpperCase innerPrimer) gene k
                then left r = leading k (toUpperCase innerPrimer)
                   \<and> right r = trailing k (toUpperCase innerPrimer) \<and> length (right r) = k
                else left r = trailing k (toUpperCase innerPrimer)
                   \<and> right r = leading k (toUpperCase innerPrimer) \<and> length (left r) = k)))"
proof (intro conjI allI impI iffI)
  assume "found (splitInnerPrimer innerPrimer gene isFIP)"
  then obtain r where r: "splitInnerPrimer innerPrimer gene isFIP = Some r"
    by (auto simp: found_def)
  from splitInnerPrimer_Some [OF r] obtain k where
    "chosenSplit (toUpperCase innerPrimer) gene k" by blast
  then have "validSplit (toUpperCase innerPrimer) gene k" by (simp add: chosenSplit_def)
  moreover from this have "k \<in> {15..35}" by (simp add: validSplit_def candidate_def)
  ultimately show "\<exists>k \<in> {15..35}. validSplit (toUpperCase innerPrimer) gene k" by blast
next
  assume "\<exists>k \<in> {15..35}. validSplit (toUpperCase innerPrimer) gene k"
  then show "found (splitInnerPrimer innerPrimer gene isFIP)"
    using splitInnerPrimer_None [of innerPrimer gene isFIP] by (auto simp: found_def)
next
  fix r assume r: "splitInnerPrimer innerPrimer gene isFIP = Some r"
  define s where "s = toUpperCase innerPrimer"
  from splitInnerPrimer_Some [OF r] obtain k where
    ch: "chosenSplit s gene k" and t: "trySplit s gene isFIP (int k) = Some r"
    unfolding s_def by blast
  from ch have c: "candidate s k" by (simp add: chosenSplit_def validSplit_def)
  then have k: "k \<in> {15..35}" by (simp add: candidate_def)
  have ll: "10 < length (leading k s)"
    using c length_leading_trailing(2) [OF c] by (auto simp: candidate_def)
  from t have "if forwardRight s gene k
                then left r = leading k s \<and> right r = trailing k s \<and> length (right r) = k
                else left r = trailing k s \<and> right r = leading k s \<and> length (left r) = k"
    unfolding trySplit_candidate [OF c]
    using length_leading_trailing(1) [OF c] by (auto split: if_splits)
  with ch k ll show "\<exists>k \<in> {15..35}. chosenSplit (toUpperCase innerPrimer) gene k
            \<and> 10 < length (leading k (toUpperCase innerPrimer))
            \<and> (if forwardRight (toUpperCase innerPrimer) gene k
                then left r = leading k (toUpperCase innerPrimer)
                   \<and> right r = trailing k (toUpperCase innerPrimer) \<and> length (right r) = k
                else left r = trailing k (toUpperCase innerPrimer)
                   \<and> right r = leading k (toUpperCase innerPrimer) \<and> length (left r) = k)"
    unfolding s_def by blast
qed

lemma split_short_right_example:
  "splitInnerPrimer ''AAAAAAAAAAACCCCCCCCCCCCCCC'' ''AAAAAAAAAAAGGGGGGGGGGGGGGG'' True
   = Some \<lparr>left = ''CCCCCCCCCCCCCCC'', right = ''AAAAAAAAAAA'', leftType = ''F1c'',
       rightType = ''F2'', leftStart = 11, leftEnd = 26, rightStart = 0, rightEnd = 11\<rparr>"
  by code_simp

lemma split_left10_example:
  "splitInnerPrimer ''AAAAAAAAAACCCCCCCCCCCCCCC'' ''TTTTTTTTTTCCCCCCCCCCCCCCC'' True = None"
  by code_simp

lemma split_left10_valid:
  "forwardRight (toUpperCase ''AAAAAAAAAACCCCCCCCCCCCCCC'') ''TTTTTTTTTTCCCCCCCCCCCCCCC'' 15"
  by code_simp

theorem splitInnerPrimer_smallest_counterexample:
  "splitInnerPrimer ''AAAAAAAAAAACCCCCCCCCCCCCCC'' ''AAAAAAAAAAAGGGGGGGGGGGGGGG'' True
   = Some \<lparr>left = ''CCCCCCCCCCCCCCC'', right = ''AAAAAAAAAAA'', leftType = ''F1c'',
       rightType = ''F2'', leftStart = 11, leftEnd = 26, rightStart = 0, rightEnd = 11\<rparr>
   \<and> length ''AAAAAAAAAAA'' < 15
   \<and> splitInnerPrimer ''AAAAAAAAAACCCCCCCCCCCCCCC'' ''TTTTTTTTTTCCCCCCCCCCCCCCC'' True = None
   \<and> forwardRight (toUpperCase ''AAAAAAAAAACCCCCCCCCCCCCCC'') ''TTTTTTTTTTCCCCCCCCCCCCCCC'' 15
   \<and> length (leading 15 (toUpperCase ''AAAAAAAAAACCCCCCCCCCCCCCC'')) = 10"
  using split_short_right_example split_left10_example split_left10_valid
  by (simp add: leading_def toUpperCase_def)

lemma split_forward_example:
  "splitInnerPrimer ''AAAAAAAAAAACCCCCCCCCCCCCCC'' ''TTTTTTTTTTTCCCCCCCCCCCCCCC'' True
   = Some \<lparr>left = ''AAAAAAAAAAA'', right = ''CCCCCCCCCCCCCCC'', leftType = ''F1c'',
       rightType = ''F2'', leftStart = 0, leftEnd = 11, rightStart = 11, rightEnd = 26\<rparr>"
  by code_simp

theorem splitInnerPrimer_smallest_witness:
  "found (splitInnerPrimer ''AAAAAAAAAAACCCCCCCCCCCCCCC'' ''TTTTTTTTTTTCCCCCCCCCCCCCCC'' True)
   \<and> splitInnerPrimer ''AAAAAAAAAAACCCCCCCCCCCCCCC'' ''TTTTTTTTTTTCCCCCCCCCCCCCCC'' True
     = Some \<lparr>left = ''AAAAAAAAAAA'', right = ''CCCCCCCCCCCCCCC'', leftType = ''F1c'',
         rightType = ''F2'', leftStart = 0, leftEnd = 11, rightStart = 11, rightEnd = 26\<rparr>
   \<and> validSplit (toUpperCase ''AAAAAAAAAAACCCCCCCCCCCCCCC'') ''TTTTTTTTTTTCCCCCCCCCCCCCCC'' 15
   \<and> chosenSplit (toUpperCase ''AAAAAAAAAAACCCCCCCCCCCCCCC'') ''TTTTTTTTTTTCCCCCCCCCCCCCCC'' 15
   \<and> forwardRight (toUpperCase ''AAAAAAAAAAACCCCCCCCCCCCCCC'') ''TTTTTTTTTTTCCCCCCCCCCCCCCC'' 15
   \<and> length ''CCCCCCCCCCCCCCC'' = 15"
proof -
  let ?X = "''AAAAAAAAAAACCCCCCCCCCCCCCC''" and ?G = "''TTTTTTTTTTTCCCCCCCCCCCCCCC''"
  let ?R = "\<lparr>left = ''AAAAAAAAAAA'', right = ''CCCCCCCCCCCCCCC'', leftType = ''F1c'',
         rightType = ''F2'', leftStart = 0, leftEnd = 11, rightStart = 11, rightEnd = 26\<rparr>"
  note th = splitInnerPrimer_smallest [of ?X ?G True]
  from th split_forward_example obtain k where k: "k \<in> {15..35}"
    "chosenSplit (toUpperCase ?X) ?G k"
    "if forwardRight (toUpperCase ?X) ?G k
     then left ?R = leading k (toUpperCase ?X) \<and> right ?R = trailing k (toUpperCase ?X)
        \<and> length (right ?R) = k
     else left ?R = trailing k (toUpperCase ?X) \<and> right ?R = leading k (toUpperCase ?X)
        \<and> length (left ?R) = k"
    by blast
  from k(1,3) have k15: "k = 15" and fr: "forwardRight (toUpperCase ?X) ?G k"
    by (auto split: if_splits)
  from k(2) have "validSplit (toUpperCase ?X) ?G k" by (simp add: chosenSplit_def)
  with k(2) fr split_forward_example show ?thesis
    unfolding k15 by (simp add: found_def)
qed


end
